theory Spec2Isabelle
  imports Main
begin

section \<open>The choice store\<close>

text \<open>
  A choice of the picker. The Go struct is used through pointers (\<open>[]*Choice\<close>); \<open>pick\<close>
  allocates one struct per input string, so the pointers of a session are pairwise distinct
  and a pointer is modelled by the position of its struct in the list \<open>choices\<close>.
  The field \<open>Id\<close> is written \<open>Id_c\<close> here. Go's \<open>int\<close> has 64 bits: it is modelled by
  \<open>int\<close>, and \<open>wrap64\<close> is written where \<open>move\<close> and \<open>moveUp\<close> compute with a step that
  the caller chooses. \<open>computePageSize\<close> subtracts only from a height that exceeds what it
  subtracts, and \<open>render\<close> adds a position, a number of lines and 1 or 2; these are written
  without \<open>wrap64\<close>.
\<close>

record Choice =
  Id_c :: int
  Value :: string
  Selected :: bool
  hidden :: bool

datatype fault = SomethingWentWrong

section \<open>Navigation: move, moveUp, moveDown\<close>

text \<open>
  The value of a sum or a negation in Go's \<open>int\<close>: the result is reduced modulo \<open>2^64\<close>
  into the range from \<open>-2^63\<close> to \<open>2^63 - 1\<close>.
\<close>

definition wrap64 :: "int \<Rightarrow> int" where
  "wrap64 v = (v + 2 ^ 63) mod 2 ^ 64 - 2 ^ 63"

text \<open>
  The first loop of \<open>move\<close> collects the pointers of the choices that are not hidden (here
  their positions, in order), records whether one of them is selected, and clears the
  selected flag of every hidden choice.
\<close>

definition notHidden :: "Choice list \<Rightarrow> nat list" where
  "notHidden choices = filter (\<lambda>p. \<not> hidden (choices ! p)) [0..<length choices]"

definition selectedExists :: "Choice list \<Rightarrow> bool" where
  "selectedExists choices = list_ex (\<lambda>p. Selected (choices ! p)) (notHidden choices)"

definition clearHidden :: "Choice list \<Rightarrow> Choice list" where
  "clearHidden choices =
     map (\<lambda>c. if hidden c \<and> Selected c then c\<lparr>Selected := False\<rparr> else c) choices"

definition setSelected :: "nat \<Rightarrow> bool \<Rightarrow> Choice list \<Rightarrow> Choice list" where
  "setSelected p b choices = choices[p := (choices ! p)\<lparr>Selected := b\<rparr>]"

text \<open>
  The second loop of \<open>move\<close> looks for the first selected entry of \<open>choicesNotHidden\<close>;
  \<open>None\<close> is the loop running to its end.
\<close>

fun selectedIndex :: "Choice list \<Rightarrow> nat list \<Rightarrow> nat option" where
  "selectedIndex choices [] = None"
| "selectedIndex choices (p # ps) =
     (if Selected (choices ! p) then Some 0 else map_option Suc (selectedIndex choices ps))"

text \<open>
  \<open>move\<close> returns the updated choices and the returned pointer (\<open>None\<close> is \<open>nil\<close>), or
  the panic at the end of the function. The sum \<open>i+increment\<close> is the 64-bit sum; \<open>moveUp\<close>
  negates the step in 64 bits.
\<close>

definition move :: "Choice list \<Rightarrow> int \<Rightarrow> fault + (Choice list \<times> nat option)" where
  "move choices increment =
     (let choicesNotHidden = notHidden choices;
          selectedChoiceExists = selectedExists choices;
          cs = clearHidden choices;
          n = length choicesNotHidden
      in if n = 0 then Inr (cs, None)
         else if \<not> selectedChoiceExists then
           Inr (setSelected (choicesNotHidden ! 0) True cs, Some (choicesNotHidden ! 0))
         else
           (case selectedIndex cs choicesNotHidden of
              None \<Rightarrow> Inl SomethingWentWrong
            | Some i \<Rightarrow>
                if wrap64 (int i + increment) < int n \<and> wrap64 (int i + increment) > 0 then
                  Inr (setSelected (choicesNotHidden ! nat (wrap64 (int i + increment))) True
                         (setSelected (choicesNotHidden ! i) False cs),
                       Some (choicesNotHidden ! nat (wrap64 (int i + increment))))
                else if wrap64 (int i + increment) \<ge> int n then
                  Inr (setSelected (choicesNotHidden ! (n - 1)) True
                         (setSelected (choicesNotHidden ! i) False cs),
                       Some (choicesNotHidden ! (n - 1)))
                else if wrap64 (int i + increment) \<le> 0 then
                  Inr (setSelected (choicesNotHidden ! 0) True
                         (setSelected (choicesNotHidden ! i) False cs),
                       Some (choicesNotHidden ! 0))
                else Inr (cs, Some (choicesNotHidden ! i))))"

definition moveUp :: "Choice list \<Rightarrow> int \<Rightarrow> fault + (Choice list \<times> nat option)" where
  "moveUp choices step = move choices (wrap64 (- step))"

definition moveDown :: "Choice list \<Rightarrow> int \<Rightarrow> fault + (Choice list \<times> nat option)" where
  "moveDown choices step = move choices step"

section \<open>Page size\<close>

text \<open>
  \<open>strings.Split(question, "\n")\<close>: the lines of the prompt, one more than the number
  of newline characters.
\<close>

fun splitLines :: "string \<Rightarrow> string list" where
  "splitLines [] = [[]]"
| "splitLines (c # cs) =
     (if c = CHR 0x0A then [] # splitLines cs
      else (case splitLines cs of [] \<Rightarrow> [[c]] | l # ls \<Rightarrow> (c # l) # ls))"

text \<open>
  \<open>computePageSize\<close>; \<open>height\<close> is the second component of \<open>screen.Size()\<close>.
\<close>

definition computePageSize :: "int \<Rightarrow> string \<Rightarrow> int" where
  "computePageSize height question =
     (let questionLines = int (length (splitLines question))
      in if height > questionLines then height - (questionLines + 1) else height)"

section \<open>The session of pick\<close>

datatype error = ErrNoChoice | ErrNoChoiceSelected

text \<open>
  The keys that \<open>pick\<close> distinguishes; \<open>KeyRune r\<close> carries \<open>string(ev.Rune())\<close>, the
  bytes that the rune adds to the search query, and \<open>KeyOther\<close> stands for every key
  without a case of its own.
\<close>

datatype key =
    KeyUp | KeyDown | KeyHome | KeyEnd | KeyPgUp | KeyPgDn
  | KeyBackspace | KeyBackspace2
  | KeyEnter | KeyRight
  | KeyEscape | KeyCtrlC | KeyLeft
  | KeyRune string
  | KeyOther

datatype event = EventKey key | EventResize | EventOther

text \<open>
  The variables that the goroutine of \<open>pick\<close> shares with its caller: the choices, the
  pointer \<open>selectedChoice\<close> (\<open>None\<close> is \<open>nil\<close>) and the search query; \<open>renders\<close> counts
  the calls of \<open>render\<close>.
\<close>

record session =
  choices :: "Choice list"
  selectedChoice :: "nat option"
  searchQuery :: string
  renders :: nat

text \<open>
  Modelled from the spec: \<open>strings.Contains\<close> as the spec's
  \<open>containsSubstring(value, query)\<close>, a literal substring test with the case as given.
\<close>

fun containsSubstring :: "string \<Rightarrow> string \<Rightarrow> bool" where
  "containsSubstring [] query = (query = [])"
| "containsSubstring (c # v) query =
     (take (length query) (c # v) = query \<or> containsSubstring v query)"

text \<open>
  Modelled from the spec: the \<open>render\<close> that \<open>choice.go\<close> calls with six arguments (the
  last one the search query) is not among the source files, and nothing else in
  \<open>choice.go\<close> writes the hidden flags. Its effect on the session is the first half of
  the spec's \<open>applyQuery\<close>: for every choice, \<open>hidden = !containsSubstring(value, query)\<close>.
  The second half (selecting again) is the call of \<open>moveUp\<close> in \<open>pick\<close>.
\<close>

definition renderQuery :: "session \<Rightarrow> session" where
  "renderQuery s =
     s\<lparr>choices := map (\<lambda>c. c\<lparr>hidden := \<not> containsSubstring (Value c) (searchQuery s)\<rparr>)
                     (choices s),
       renders := Suc (renders s)\<rparr>"

text \<open>
  One iteration of the loop either goes on to the next iteration, returns after
  \<open>close(quit)\<close>, or panics inside \<open>move\<close>.
\<close>

datatype control = Continue session | Quit session | Panicked session

definition assignMove :: "session \<Rightarrow> fault + (Choice list \<times> nat option) \<Rightarrow> control" where
  "assignMove s r =
     (case r of
        Inl f \<Rightarrow> Panicked s
      | Inr (cs, sel) \<Rightarrow> Continue (s\<lparr>choices := cs, selectedChoice := sel\<rparr>))"

text \<open>
  The two branches that edit the query: the new query, \<open>render\<close>, then
  \<open>moveUp(choices, len(choices))\<close>.
\<close>

definition editQuery :: "session \<Rightarrow> string \<Rightarrow> control" where
  "editQuery s query =
     (let s' = renderQuery (s\<lparr>searchQuery := query\<rparr>)
      in assignMove s' (moveUp (choices s') (int (length (choices s')))))"

text \<open>
  The \<open>switch\<close> over the polled event; \<open>height\<close> is what \<open>screen.Size()\<close> reports while
  the event is handled.
\<close>

fun onEvent :: "string \<Rightarrow> int \<Rightarrow> session \<Rightarrow> event \<Rightarrow> control" where
  "onEvent question height s (EventKey KeyUp) = assignMove s (moveUp (choices s) 1)"
| "onEvent question height s (EventKey KeyDown) = assignMove s (moveDown (choices s) 1)"
| "onEvent question height s (EventKey KeyHome) =
     assignMove s (moveUp (choices s) (int (length (choices s))))"
| "onEvent question height s (EventKey KeyEnd) =
     assignMove s (moveDown (choices s) (int (length (choices s))))"
| "onEvent question height s (EventKey KeyPgUp) =
     assignMove s (moveUp (choices s) (computePageSize height question))"
| "onEvent question height s (EventKey KeyPgDn) =
     assignMove s (moveDown (choices s) (computePageSize height question))"
| "onEvent question height s (EventKey KeyBackspace) =
     (if length (searchQuery s) > 0 then editQuery s (butlast (searchQuery s)) else Continue s)"
| "onEvent question height s (EventKey KeyBackspace2) =
     (if length (searchQuery s) > 0 then editQuery s (butlast (searchQuery s)) else Continue s)"
| "onEvent question height s (EventKey KeyEnter) = Quit s"
| "onEvent question height s (EventKey KeyRight) = Quit s"
| "onEvent question height s (EventKey KeyEscape) = Quit (s\<lparr>selectedChoice := None\<rparr>)"
| "onEvent question height s (EventKey KeyCtrlC) = Quit (s\<lparr>selectedChoice := None\<rparr>)"
| "onEvent question height s (EventKey KeyLeft) = Quit (s\<lparr>selectedChoice := None\<rparr>)"
| "onEvent question height s (EventKey (KeyRune r)) = editQuery s (searchQuery s @ r)"
| "onEvent question height s (EventKey KeyOther) = Continue s"
| "onEvent question height s EventResize = Continue s"
| "onEvent question height s EventOther = Continue s"

text \<open>
  The loop of the goroutine over the events that \<open>PollEvent\<close> delivers, each with the
  screen height at that moment. When the events run out the loop has rendered and waits
  in \<open>PollEvent\<close>: the result is \<open>Continue\<close> with the session as it stands.
\<close>

fun eventLoop :: "string \<Rightarrow> session \<Rightarrow> (event \<times> int) list \<Rightarrow> control" where
  "eventLoop question s [] = Continue (renderQuery s)"
| "eventLoop question s ((ev, height) # rest) =
     (case onEvent question height (renderQuery s) ev of
        Continue s' \<Rightarrow> eventLoop question s' rest
      | Quit s' \<Rightarrow> Quit s'
      | Panicked s' \<Rightarrow> Panicked s')"

definition newChoices :: "string list \<Rightarrow> Choice list" where
  "newChoices choicesToPickFrom =
     map (\<lambda>(i, choice). \<lparr>Id_c = int i, Value = choice, Selected = (i = 0), hidden = False\<rparr>)
       (enumerate 0 choicesToPickFrom)"

definition newSession :: "string list \<Rightarrow> session" where
  "newSession choicesToPickFrom =
     \<lparr>choices = newChoices choicesToPickFrom, selectedChoice = Some 0,
      searchQuery = [], renders = 0\<rparr>"

text \<open>
  What a call of \<open>pick\<close> comes to: it returns a value and an id or an error, it waits for
  ever on \<open>quit\<close>, or the program panics. The second component of the result of \<open>pick\<close>
  is the number of calls of \<open>render\<close>.
\<close>

datatype outcome = Returns "error + string \<times> int" | Blocks | Panics

definition returned :: "session \<Rightarrow> error + string \<times> int" where
  "returned s =
     (case selectedChoice s of
        None \<Rightarrow> Inl ErrNoChoiceSelected
      | Some p \<Rightarrow> Inr (Value (choices s ! p), Id_c (choices s ! p)))"

definition pick :: "string \<Rightarrow> string list \<Rightarrow> (event \<times> int) list \<Rightarrow> outcome \<times> nat" where
  "pick question choicesToPickFrom events =
     (if length choicesToPickFrom = 0 then (Returns (Inl ErrNoChoice), 0)
      else
        (case eventLoop question (newSession choicesToPickFrom) events of
           Continue s \<Rightarrow> (Blocks, renders s)
         | Panicked s \<Rightarrow> (Panics, renders s)
         | Quit s \<Rightarrow> (Returns (returned s), renders s)))"

section \<open>Rendering (the first version of the picker)\<close>

text \<open>
  The \<open>render\<close> with five arguments. The screen is the list of the calls of \<open>printText\<close>:
  column \<open>x\<close>, row \<open>y\<close>, text and the foreground colour of the configuration that
  is passed. The parameter \<open>selected\<close> of \<open>render\<close> is the struct that the pointer
  \<open>selectedChoice\<close> refers to, and \<open>mn\<close>, \<open>mx\<close> are the variables \<open>min\<close>, \<open>max\<close>.
\<close>

datatype colour = TextColor | SelectedTextColor

record printed =
  px :: int
  py :: int
  ptext :: string
  pfg :: colour

fun printLines :: "int \<Rightarrow> string list \<Rightarrow> printed list" where
  "printLines lineNumber [] = []"
| "printLines lineNumber (line # rest) =
     \<lparr>px = 1, py = lineNumber, ptext = line, pfg = TextColor\<rparr> # printLines (lineNumber + 1) rest"

definition printOption :: "int \<Rightarrow> Choice \<Rightarrow> printed" where
  "printOption lineNumber option =
     (if Selected option
      then \<lparr>px = 1, py = lineNumber, ptext = ''> '' @ Value option, pfg = SelectedTextColor\<rparr>
      else \<lparr>px = 3, py = lineNumber, ptext = Value option, pfg = TextColor\<rparr>)"

fun printOptions :: "int \<Rightarrow> int \<Rightarrow> int \<Rightarrow> Choice list \<Rightarrow> printed list" where
  "printOptions mn maximumThatCanBeDisplayed lineNumber [] = []"
| "printOptions mn maximumThatCanBeDisplayed lineNumber (option # rest) =
     (if Id_c option \<le> (mn + 1) - maximumThatCanBeDisplayed
         \<and> \<not> (Id_c option > (mn + 1) - maximumThatCanBeDisplayed)
      then printOptions mn maximumThatCanBeDisplayed lineNumber rest
      else printOption lineNumber option
             # printOptions mn maximumThatCanBeDisplayed (lineNumber + 1) rest)"

definition render :: "int \<Rightarrow> string \<Rightarrow> Choice list \<Rightarrow> Choice \<Rightarrow> printed list" where
  "render maximumThatCanBeDisplayed question options selected =
     (let questionLines = splitLines question;
          lineNumber = int (length questionLines);
          mn = Id_c selected + int (length questionLines);
          mx = maximumThatCanBeDisplayed;
          mn' = (if Id_c selected > mx then mn + 1 else mn)
      in printLines 0 questionLines
           @ printOptions mn' maximumThatCanBeDisplayed lineNumber options)"

section \<open>Notions used in the statements\<close>

text \<open>The positions of the choices whose selected flag is set.\<close>

definition selectedPositions :: "Choice list \<Rightarrow> nat list" where
  "selectedPositions cs = filter (\<lambda>p. Selected (cs ! p)) [0..<length cs]"

text \<open>
  The indices, within the list of the choices that are not hidden, of the selected ones.
\<close>

definition visibleSelected :: "Choice list \<Rightarrow> nat list" where
  "visibleSelected cs =
     filter (\<lambda>j. Selected (cs ! (notHidden cs ! j))) [0..<length (notHidden cs)]"

text \<open>Clamping \<open>i + increment\<close> into the indices of a list of length \<open>n\<close>.\<close>

definition clampIndex :: "nat \<Rightarrow> nat \<Rightarrow> int \<Rightarrow> nat" where
  "clampIndex n i increment = nat (max 0 (min (int n - 1) (int i + increment)))"

text \<open>The same with the sum as \<open>move\<close> computes it, in 64 bits.\<close>

definition wrapIndex :: "nat \<Rightarrow> nat \<Rightarrow> int \<Rightarrow> nat" where
  "wrapIndex n i increment = nat (max 0 (min (int n - 1) (wrap64 (int i + increment))))"

text \<open>Two choice lists that differ in the selected flags at most.\<close>

definition sameChoices :: "Choice list \<Rightarrow> Choice list \<Rightarrow> bool" where
  "sameChoices cs cs' \<longleftrightarrow>
     map Id_c cs' = map Id_c cs \<and> map Value cs' = map Value cs \<and> map hidden cs' = map hidden cs"

text \<open>
  The pointer that \<open>move\<close> returns, written with the notions above: none when every
  choice is hidden, the first visible choice when no visible choice is selected, and the
  clamped target counted from the first selected visible choice otherwise, with the sum
  in 64 bits.
\<close>

definition moveTarget :: "Choice list \<Rightarrow> int \<Rightarrow> nat option" where
  "moveTarget cs increment =
     (if notHidden cs = [] then None
      else (case visibleSelected cs of
              [] \<Rightarrow> Some (hd (notHidden cs))
            | i # rest \<Rightarrow> Some (notHidden cs ! wrapIndex (length (notHidden cs)) i increment)))"

text \<open>
  A move from \<open>cs\<close> to \<open>cs'\<close> selects position \<open>t\<close>: nothing but selected flags has
  changed, the choice at \<open>t\<close> is visible and selected, and it is the only selected choice
  when at most one visible choice was selected before.
\<close>

definition selects :: "Choice list \<Rightarrow> Choice list \<Rightarrow> nat \<Rightarrow> bool" where
  "selects cs cs' t \<longleftrightarrow>
     sameChoices cs cs' \<and> t < length cs' \<and> Selected (cs' ! t) \<and> \<not> hidden (cs' ! t)
     \<and> (length (visibleSelected cs) \<le> 1 \<longrightarrow> selectedPositions cs' = [t])"

text \<open>
  The selection invariant of the data model: among the choices that are not hidden at most
  one is selected; exactly one when there is a visible choice, and no choice at all is
  selected when there is none.
\<close>

definition selectionInvariant :: "Choice list \<Rightarrow> bool" where
  "selectionInvariant cs \<longleftrightarrow>
     length (visibleSelected cs) \<le> 1
     \<and> (if notHidden cs = [] then selectedPositions cs = [] else length (visibleSelected cs) = 1)"

text \<open>
  What holds of a session between two events: ids and values are those of the input, the
  hidden flags are those of the current query, and \<open>selectedChoice\<close> points to the only
  selected choice, which is visible, or is \<open>nil\<close> when no choice is visible.
\<close>

definition sessionInv :: "string list \<Rightarrow> session \<Rightarrow> bool" where
  "sessionInv input s \<longleftrightarrow>
     map Id_c (choices s) = map int [0..<length input]
     \<and> map Value (choices s) = input
     \<and> map hidden (choices s) = map (\<lambda>v. \<not> containsSubstring v (searchQuery s)) input
     \<and> selectedPositions (choices s) = (case selectedChoice s of None \<Rightarrow> [] | Some p \<Rightarrow> [p])
     \<and> (case selectedChoice s of
          None \<Rightarrow> notHidden (choices s) = []
        | Some p \<Rightarrow> p \<in> set (notHidden (choices s)))"

text \<open>
  A choice list for the examples: five choices, the second one hidden, the third one
  selected.
\<close>

definition sampleChoices :: "Choice list" where
  "sampleChoices =
     [\<lparr>Id_c = 0, Value = ''ant'', Selected = False, hidden = False\<rparr>,
      \<lparr>Id_c = 1, Value = ''bee'', Selected = False, hidden = True\<rparr>,
      \<lparr>Id_c = 2, Value = ''cat'', Selected = True, hidden = False\<rparr>,
      \<lparr>Id_c = 3, Value = ''tan'', Selected = False, hidden = False\<rparr>,
      \<lparr>Id_c = 4, Value = ''rat'', Selected = False, hidden = False\<rparr>]"

text \<open>Four choices of which the selected one is hidden.\<close>

definition sampleHiddenSelected :: "Choice list" where
  "sampleHiddenSelected =
     [\<lparr>Id_c = 0, Value = ''ant'', Selected = False, hidden = False\<rparr>,
      \<lparr>Id_c = 1, Value = ''bee'', Selected = True, hidden = True\<rparr>,
      \<lparr>Id_c = 2, Value = ''cat'', Selected = False, hidden = False\<rparr>,
      \<lparr>Id_c = 3, Value = ''tan'', Selected = False, hidden = False\<rparr>]"

text \<open>A session over these choices, with the query \<open>a\<close> that hides the second one.\<close>

definition sampleSession :: session where
  "sampleSession =
     \<lparr>choices = sampleChoices, selectedChoice = Some 2, searchQuery = ''a'', renders = 1\<rparr>"

text \<open>
  The position of the first choice that \<open>render\<close> draws when the choice at position \<open>s\<close>
  is selected and the ids are the positions: the choices with an id of at most
  \<open>min + 1 - height\<close> are skipped.
\<close>

definition windowStart :: "int \<Rightarrow> int \<Rightarrow> nat \<Rightarrow> nat" where
  "windowStart height headerLines s =
     nat (int s + 2 + (if int s > height then 1 else 0) - (height - headerLines))"

text \<open>Six options for the examples, the fourth one selected.\<close>

definition sampleOptions :: "Choice list" where
  "sampleOptions =
     [\<lparr>Id_c = 0, Value = ''a'', Selected = False, hidden = False\<rparr>,
      \<lparr>Id_c = 1, Value = ''b'', Selected = False, hidden = False\<rparr>,
      \<lparr>Id_c = 2, Value = ''c'', Selected = False, hidden = False\<rparr>,
      \<lparr>Id_c = 3, Value = ''d'', Selected = True, hidden = False\<rparr>,
      \<lparr>Id_c = 4, Value = ''e'', Selected = False, hidden = False\<rparr>,
      \<lparr>Id_c = 5, Value = ''f'', Selected = False, hidden = False\<rparr>]"

text \<open>
  An input for the examples, three events (Down, then the runes \<open>a\<close> and \<open>n\<close>) and the
  session in which the loop then waits.
\<close>

definition sampleInput :: "string list" where
  "sampleInput = [''apple'', ''banana'', ''cherry'']"

definition sampleEvents :: "(event \<times> int) list" where
  "sampleEvents = [(EventKey KeyDown, 24), (EventKey (KeyRune ''a''), 24), (EventKey (KeyRune ''n''), 24)]"

definition sampleFiltered :: session where
  "sampleFiltered =
     \<lparr>choices =
        [\<lparr>Id_c = 0, Value = ''apple'', Selected = False, hidden = True\<rparr>,
         \<lparr>Id_c = 1, Value = ''banana'', Selected = True, hidden = False\<rparr>,
         \<lparr>Id_c = 2, Value = ''cherry'', Selected = False, hidden = True\<rparr>],
      selectedChoice = Some 1, searchQuery = ''an'', renders = 6\<rparr>"

section \<open>Properties of move\<close>

lemma length_clearHidden [simp]: "length (clearHidden cs) = length cs"
  by (simp add: clearHidden_def)

lemma length_setSelected [simp]: "length (setSelected p b cs) = length cs"
  by (simp add: setSelected_def)

lemma notHidden_bound: "p \<in> set (notHidden cs) \<Longrightarrow> p < length cs \<and> \<not> hidden (cs ! p)"
  by (simp add: notHidden_def)

lemma clearHidden_visible:
  "p \<in> set (notHidden cs) \<Longrightarrow> clearHidden cs ! p = cs ! p"
  by (simp add: notHidden_def clearHidden_def)

lemma selectedIndex_None:
  "selectedIndex cs ps = None \<longleftrightarrow> (\<forall>p \<in> set ps. \<not> Selected (cs ! p))"
  by (induction ps) auto

lemma selectedIndex_Some:
  "selectedIndex cs ps = Some i \<Longrightarrow>
     i < length ps \<and> Selected (cs ! (ps ! i)) \<and> (\<forall>j < i. \<not> Selected (cs ! (ps ! j)))"
proof (induction ps arbitrary: i)
  case Nil
  then show ?case by simp
next
  case (Cons p ps)
  show ?case
  proof (cases "Selected (cs ! p)")
    case True
    with Cons.prems show ?thesis by simp
  next
    case False
    with Cons.prems obtain k where k: "selectedIndex cs ps = Some k" "i = Suc k"
      by auto
    from Cons.IH [OF k(1)] False k(2) show ?thesis
      by (auto simp: less_Suc_eq_0_disj)
  qed
qed

lemma selectedExists_index:
  "selectedExists cs \<Longrightarrow> \<exists>i. selectedIndex (clearHidden cs) (notHidden cs) = Some i"
proof -
  assume "selectedExists cs"
  then obtain p where p: "p \<in> set (notHidden cs)" "Selected (cs ! p)"
    by (auto simp: selectedExists_def list_ex_iff)
  then have "Selected (clearHidden cs ! p)"
    by (simp add: clearHidden_visible)
  with p(1) have "selectedIndex (clearHidden cs) (notHidden cs) \<noteq> None"
    by (auto simp: selectedIndex_None)
  then show ?thesis by auto
qed

lemma move_selected:
  assumes "selectedIndex (clearHidden cs) (notHidden cs) = Some i"
  shows "move cs increment =
           Inr (setSelected (notHidden cs ! wrapIndex (length (notHidden cs)) i increment) True
                  (setSelected (notHidden cs ! i) False (clearHidden cs)),
                Some (notHidden cs ! wrapIndex (length (notHidden cs)) i increment))"
proof -
  from selectedIndex_Some [OF assms] have i: "i < length (notHidden cs)"
    and sel: "Selected (clearHidden cs ! (notHidden cs ! i))" by auto
  from i have mem: "notHidden cs ! i \<in> set (notHidden cs)" by simp
  with sel have "Selected (cs ! (notHidden cs ! i))" by (simp add: clearHidden_visible)
  with mem have ex: "selectedExists cs"
    by (auto simp: selectedExists_def list_ex_iff)
  from i have n: "length (notHidden cs) \<noteq> 0" by auto
  consider (mid) "wrap64 (int i + increment) < int (length (notHidden cs))" "wrap64 (int i + increment) > 0"
    | (hi) "wrap64 (int i + increment) \<ge> int (length (notHidden cs))"
    | (lo) "wrap64 (int i + increment) \<le> 0" "wrap64 (int i + increment) < int (length (notHidden cs))"
    by linarith
  then show ?thesis
  proof cases
    case mid
    then have "wrapIndex (length (notHidden cs)) i increment = nat (wrap64 (int i + increment))"
      by (simp add: wrapIndex_def)
    with mid ex n assms show ?thesis by (simp add: move_def Let_def)
  next
    case hi
    then have "wrapIndex (length (notHidden cs)) i increment = length (notHidden cs) - 1"
      using n by (simp add: wrapIndex_def nat_diff_distrib)
    with hi ex n assms show ?thesis by (simp add: move_def Let_def)
  next
    case lo
    then have "wrapIndex (length (notHidden cs)) i increment = 0"
      by (simp add: wrapIndex_def)
    with lo ex n assms show ?thesis by (simp add: move_def Let_def)
  qed
qed

lemma wrapIndex_less: "0 < n \<Longrightarrow> wrapIndex n i increment < n"
  by (auto simp: wrapIndex_def)

lemma wrap64_id: "- (2 ^ 63) \<le> v \<Longrightarrow> v < 2 ^ 63 \<Longrightarrow> wrap64 v = v"
  by (simp add: wrap64_def)

lemma wrapIndex_clamp:
  "- (2 ^ 63) \<le> int i + increment \<Longrightarrow> int i + increment < 2 ^ 63 \<Longrightarrow>
     wrapIndex n i increment = clampIndex n i increment"
  by (simp add: wrapIndex_def clampIndex_def wrap64_id)

lemma nth_clearHidden:
  "p < length cs \<Longrightarrow>
     clearHidden cs ! p = (if hidden (cs ! p) \<and> Selected (cs ! p) then (cs ! p)\<lparr>Selected := False\<rparr> else cs ! p)"
  by (simp add: clearHidden_def)

lemma nth_setSelected:
  "p < length cs \<Longrightarrow>
     setSelected q b cs ! p = (if p = q then (cs ! p)\<lparr>Selected := b\<rparr> else cs ! p)"
  by (simp add: setSelected_def nth_list_update)

lemma sameChoices_refl [simp]: "sameChoices cs cs"
  by (simp add: sameChoices_def)

lemma sameChoices_trans: "sameChoices a b \<Longrightarrow> sameChoices b c \<Longrightarrow> sameChoices a c"
  by (simp add: sameChoices_def)

lemma sameChoices_clearHidden: "sameChoices cs (clearHidden cs)"
  by (simp add: sameChoices_def clearHidden_def)

lemma sameChoices_setSelected: "sameChoices cs (setSelected p b cs)"
  unfolding sameChoices_def
  by (auto intro!: nth_equalityI simp: nth_setSelected split: if_splits)

lemma sameChoices_length: "sameChoices cs cs' \<Longrightarrow> length cs' = length cs"
  unfolding sameChoices_def by (metis length_map)

lemma sameChoices_nth:
  "sameChoices cs cs' \<Longrightarrow> p < length cs \<Longrightarrow>
     Id_c (cs' ! p) = Id_c (cs ! p) \<and> Value (cs' ! p) = Value (cs ! p) \<and> hidden (cs' ! p) = hidden (cs ! p)"
  unfolding sameChoices_def by (metis length_map nth_map)

lemma sameChoices_notHidden: "sameChoices cs cs' \<Longrightarrow> notHidden cs' = notHidden cs"
  unfolding notHidden_def
  by (auto simp: sameChoices_length sameChoices_nth intro!: filter_cong)

lemma move_sameChoices: "move cs increment = Inr (cs', r) \<Longrightarrow> sameChoices cs cs'"
  unfolding move_def Let_def
  by (auto split: if_splits option.splits
      intro: sameChoices_trans [OF sameChoices_clearHidden] sameChoices_clearHidden
        sameChoices_trans [OF sameChoices_clearHidden sameChoices_trans [OF sameChoices_setSelected sameChoices_setSelected]]
        sameChoices_trans [OF sameChoices_clearHidden sameChoices_setSelected])

lemma upt_split: "t < n \<Longrightarrow> [0..<n] = [0..<t] @ t # [Suc t..<n]"
proof -
  assume t: "t < n"
  have "[0..<t + (n - t)] = [0..<t] @ [t..<t + (n - t)]"
    by (rule upt_add_eq_append) simp
  with t show ?thesis by (simp add: upt_conv_Cons)
qed

lemma filter_upt_single:
  "t < n \<Longrightarrow> (\<And>p. p < n \<Longrightarrow> P p \<longleftrightarrow> p = t) \<Longrightarrow> filter P [0..<n] = [t]"
proof -
  assume t: "t < n" and P: "\<And>p. p < n \<Longrightarrow> P p \<longleftrightarrow> p = t"
  have "filter P [0..<n] = filter (\<lambda>p. p = t) [0..<n]"
    by (rule filter_cong) (auto simp: P)
  also have "\<dots> = filter (\<lambda>p. p = t) ([0..<t] @ t # [Suc t..<n])"
    using upt_split [OF t] by simp
  also have "\<dots> = [t]"
    by (auto simp: filter_empty_conv)
  finally show ?thesis .
qed

lemma filter_upt_Cons:
  assumes "filter P [0..<n] = i # rest"
  shows "i < n \<and> P i \<and> (\<forall>j<i. \<not> P j)"
proof -
  from assms obtain us vs where split: "[0..<n] = us @ i # vs"
    and us: "\<forall>u\<in>set us. \<not> P u" and Pi: "P i"
    by (auto simp: filter_eq_Cons_iff)
  have "i \<in> set (us @ i # vs)" by simp
  then have "i \<in> set [0..<n]" by (simp only: split)
  then have i: "i < n" by simp
  have "sorted (us @ i # vs)" using split by (metis sorted_upt)
  then have ge: "\<forall>v\<in>set vs. i \<le> v" by (simp add: sorted_append)
  have "\<not> P j" if "j < i" for j
  proof -
    from that i have "j \<in> set [0..<n]" by simp
    then have "j \<in> set (us @ i # vs)" by (simp only: split)
    with that ge have "j \<in> set us" by auto
    with us show ?thesis by blast
  qed
  with i Pi show ?thesis by blast
qed

lemma selectedIndex_first:
  assumes "i < length ps" "Selected (cs ! (ps ! i))" "\<forall>j<i. \<not> Selected (cs ! (ps ! j))"
  shows "selectedIndex cs ps = Some i"
proof -
  from assms(1,2) have "selectedIndex cs ps \<noteq> None"
    by (auto simp: selectedIndex_None)
  then obtain k where k: "selectedIndex cs ps = Some k" by auto
  from selectedIndex_Some [OF k] assms have "k = i"
    by (meson linorder_neqE_nat)
  with k show ?thesis by simp
qed

lemma clearHidden_notHidden_nth:
  "j < length (notHidden cs) \<Longrightarrow> clearHidden cs ! (notHidden cs ! j) = cs ! (notHidden cs ! j)"
  by (simp add: clearHidden_visible)

lemma visibleSelected_index:
  assumes "visibleSelected cs = i # rest"
  shows "selectedIndex (clearHidden cs) (notHidden cs) = Some i"
proof -
  from filter_upt_Cons [OF assms [unfolded visibleSelected_def]]
  have "i < length (notHidden cs)" "Selected (cs ! (notHidden cs ! i))"
    "\<forall>j<i. \<not> Selected (cs ! (notHidden cs ! j))" by auto
  then show ?thesis
    by (intro selectedIndex_first) (auto simp: clearHidden_notHidden_nth)
qed

text \<open>
  The selected flags after a move from a list with a single selected visible choice.
\<close>

lemma visibleSelected_single:
  assumes "visibleSelected cs = [i]" "j < length (notHidden cs)"
  shows "Selected (cs ! (notHidden cs ! j)) \<longleftrightarrow> j = i"
proof -
  have "j \<in> set (visibleSelected cs) \<longleftrightarrow> Selected (cs ! (notHidden cs ! j))"
    using assms(2) by (simp add: visibleSelected_def)
  with assms(1) show ?thesis by auto
qed

lemma selectedPositions_after:
  assumes vs: "visibleSelected cs = [i]" and t: "t < length (notHidden cs)"
  shows "selectedPositions (setSelected (notHidden cs ! t) True
            (setSelected (notHidden cs ! i) False (clearHidden cs))) = [notHidden cs ! t]"
proof -
  let ?nh = "notHidden cs"
  from filter_upt_Cons [OF vs [unfolded visibleSelected_def]] have i: "i < length ?nh" by simp
  have bound: "?nh ! t < length cs" using t notHidden_bound [of "?nh ! t" cs] by simp
  have "Selected (setSelected (?nh ! t) True (setSelected (?nh ! i) False (clearHidden cs)) ! p)
          \<longleftrightarrow> p = ?nh ! t" if p: "p < length cs" for p
  proof (cases "hidden (cs ! p)")
    case True
    then have "p \<notin> set ?nh" using notHidden_bound by blast
    then have "p \<noteq> ?nh ! t" "p \<noteq> ?nh ! i" using t i by auto
    with p True show ?thesis by (simp add: nth_setSelected nth_clearHidden)
  next
    case False
    with p have "p \<in> set ?nh" by (simp add: notHidden_def)
    then obtain j where j: "j < length ?nh" "p = ?nh ! j" by (auto simp: in_set_conv_nth)
    from visibleSelected_single [OF vs j(1)] j(2) have sel: "Selected (cs ! p) \<longleftrightarrow> j = i" by simp
    show ?thesis
      using p False sel j by (auto simp: nth_setSelected nth_clearHidden)
  qed
  then show ?thesis
    unfolding selectedPositions_def
    by (intro filter_upt_single) (use bound in auto)
qed

lemma selectedPositions_none:
  "(\<And>p. p < length cs \<Longrightarrow> \<not> Selected (cs ! p)) \<Longrightarrow> selectedPositions cs = []"
  by (simp add: selectedPositions_def filter_empty_conv)

lemma visibleSelected_Nil:
  "visibleSelected cs = [] \<Longrightarrow> p \<in> set (notHidden cs) \<Longrightarrow> \<not> Selected (cs ! p)"
  by (auto simp: visibleSelected_def filter_empty_conv in_set_conv_nth)

lemma visibleSelected_selectedExists: "selectedExists cs \<longleftrightarrow> visibleSelected cs \<noteq> []"
proof
  assume "selectedExists cs"
  then obtain j where "j < length (notHidden cs)" "Selected (cs ! (notHidden cs ! j))"
    by (auto simp: selectedExists_def list_ex_iff in_set_conv_nth)
  then have "j \<in> set (visibleSelected cs)" by (simp add: visibleSelected_def)
  then show "visibleSelected cs \<noteq> []" by auto
next
  assume "visibleSelected cs \<noteq> []"
  then obtain j where "j \<in> set (visibleSelected cs)" by (cases "visibleSelected cs") auto
  then have "j < length (notHidden cs)" "Selected (cs ! (notHidden cs ! j))"
    by (simp_all add: visibleSelected_def)
  then show "selectedExists cs"
    unfolding selectedExists_def list_ex_iff using nth_mem by blast
qed

lemma move_result:
  assumes "length (visibleSelected cs) \<le> 1"
  shows "\<exists>cs'. move cs increment = Inr (cs', moveTarget cs increment) \<and> sameChoices cs cs'
           \<and> selectedPositions cs' = (case moveTarget cs increment of None \<Rightarrow> [] | Some t \<Rightarrow> [t])"
proof -
  let ?nh = "notHidden cs"
  consider (empty) "?nh = []" | (none) "?nh \<noteq> []" "visibleSelected cs = []"
    | (one) i where "visibleSelected cs = [i]"
    using assms by (cases "visibleSelected cs") (auto simp: Suc_le_eq)
  then show ?thesis
  proof cases
    case empty
    then have hid: "hidden (cs ! p)" if "p < length cs" for p
      using that by (auto simp: notHidden_def filter_empty_conv)
    have "selectedPositions (clearHidden cs) = []"
      by (rule selectedPositions_none) (simp add: nth_clearHidden hid)
    with empty show ?thesis
      by (simp add: move_def moveTarget_def sameChoices_clearHidden)
  next
    case none
    let ?t = "hd ?nh"
    from none(1) have t: "?t \<in> set ?nh" "?t = ?nh ! 0" by (simp_all add: hd_conv_nth)
    then have bound: "?t < length cs" using notHidden_bound by blast
    have "Selected (setSelected ?t True (clearHidden cs) ! p) \<longleftrightarrow> p = ?t" if p: "p < length cs" for p
    proof (cases "hidden (cs ! p)")
      case True
      then have "p \<noteq> ?t" using t(1) notHidden_bound by blast
      with p True show ?thesis by (simp add: nth_setSelected nth_clearHidden)
    next
      case False
      with p have "p \<in> set ?nh" by (simp add: notHidden_def)
      with none(2) have "\<not> Selected (cs ! p)" by (rule visibleSelected_Nil)
      with p False show ?thesis by (simp add: nth_setSelected nth_clearHidden)
    qed
    then have "selectedPositions (setSelected ?t True (clearHidden cs)) = [?t]"
      unfolding selectedPositions_def
      by (intro filter_upt_single) (use bound in auto)
    moreover have "sameChoices cs (setSelected ?t True (clearHidden cs))"
      by (rule sameChoices_trans [OF sameChoices_clearHidden sameChoices_setSelected])
    moreover have "move cs increment = Inr (setSelected ?t True (clearHidden cs), Some ?t)"
      using none t(2) by (simp add: move_def Let_def visibleSelected_selectedExists)
    ultimately show ?thesis using none by (simp add: moveTarget_def)
  next
    case one
    let ?t = "wrapIndex (length ?nh) i increment"
    from filter_upt_Cons [OF one [unfolded visibleSelected_def]] have i: "i < length ?nh" by simp
    then have t: "?t < length ?nh" by (intro wrapIndex_less) auto
    from i have ne: "?nh \<noteq> []" by auto
    have "sameChoices cs (setSelected (?nh ! ?t) True (setSelected (?nh ! i) False (clearHidden cs)))"
      by (rule sameChoices_trans [OF sameChoices_clearHidden
            sameChoices_trans [OF sameChoices_setSelected sameChoices_setSelected]])
    with move_selected [OF visibleSelected_index [OF one], of increment]
      selectedPositions_after [OF one t] one ne
    show ?thesis by (simp add: moveTarget_def)
  qed
qed

lemma visibleSelected_le: "length (visibleSelected cs) \<le> length (selectedPositions cs)"
proof -
  let ?P = "\<lambda>p. Selected (cs ! p)"
  have "length (visibleSelected cs) = length (map (nth (notHidden cs)) (visibleSelected cs))"
    by simp
  also have "map (nth (notHidden cs)) (visibleSelected cs)
      = filter ?P (map (nth (notHidden cs)) [0..<length (notHidden cs)])"
    by (simp add: visibleSelected_def filter_map comp_def)
  also have "\<dots> = filter ?P (notHidden cs)" by (simp add: map_nth)
  also have "\<dots> = filter (\<lambda>p. \<not> hidden (cs ! p)) (selectedPositions cs)"
    by (auto simp: notHidden_def selectedPositions_def intro: filter_cong)
  finally show ?thesis by simp
qed

lemma notHidden_length: "length (notHidden cs) \<le> length cs"
  unfolding notHidden_def by (metis diff_zero length_filter_le length_upt)

lemma move_target:
  "\<exists>cs'. move cs increment = Inr (cs', moveTarget cs increment) \<and> sameChoices cs cs'
     \<and> (\<forall>t. moveTarget cs increment = Some t \<longrightarrow>
            t < length cs' \<and> Selected (cs' ! t) \<and> \<not> hidden (cs' ! t))"
proof -
  let ?nh = "notHidden cs"
  consider (empty) "?nh = []" | (none) "?nh \<noteq> []" "visibleSelected cs = []"
    | (some) i rest where "visibleSelected cs = i # rest"
    by (cases "visibleSelected cs") auto
  then show ?thesis
  proof cases
    case empty
    then show ?thesis
      by (simp add: move_def moveTarget_def sameChoices_clearHidden)
  next
    case none
    let ?t = "hd ?nh"
    let ?cs' = "setSelected ?t True (clearHidden cs)"
    from none(1) have t: "?t \<in> set ?nh" "?t = ?nh ! 0" by (simp_all add: hd_conv_nth)
    then have bound: "?t < length cs" "\<not> hidden (cs ! ?t)" using notHidden_bound by blast+
    have mv: "move cs increment = Inr (?cs', Some ?t)"
      using none t(2) by (simp add: move_def Let_def visibleSelected_selectedExists)
    have same: "sameChoices cs ?cs'"
      by (rule sameChoices_trans [OF sameChoices_clearHidden sameChoices_setSelected])
    have "Selected (?cs' ! ?t)" using bound by (simp add: nth_setSelected)
    moreover have "\<not> hidden (?cs' ! ?t)"
      using bound sameChoices_nth [OF same, of ?t] by simp
    ultimately show ?thesis using mv same bound none by (simp add: moveTarget_def)
  next
    case some
    let ?t = "?nh ! wrapIndex (length ?nh) i increment"
    let ?cs' = "setSelected ?t True (setSelected (?nh ! i) False (clearHidden cs))"
    from filter_upt_Cons [OF some [unfolded visibleSelected_def]] have i: "i < length ?nh" by simp
    then have "wrapIndex (length ?nh) i increment < length ?nh" by (intro wrapIndex_less) auto
    then have "?t \<in> set ?nh" by simp
    then have bound: "?t < length cs" "\<not> hidden (cs ! ?t)" using notHidden_bound by blast+
    from i have ne: "?nh \<noteq> []" by auto
    have same: "sameChoices cs ?cs'"
      by (rule sameChoices_trans [OF sameChoices_clearHidden
            sameChoices_trans [OF sameChoices_setSelected sameChoices_setSelected]])
    have "Selected (?cs' ! ?t)" using bound by (simp add: nth_setSelected)
    moreover have "\<not> hidden (?cs' ! ?t)"
      using bound sameChoices_nth [OF same, of ?t] by simp
    ultimately show ?thesis
      using move_selected [OF visibleSelected_index [OF some], of increment] same bound some ne
      by (simp add: moveTarget_def)
  qed
qed

lemma move_selects:
  assumes "moveTarget cs increment = Some t"
  shows "\<exists>cs'. move cs increment = Inr (cs', Some t) \<and> selects cs cs' t"
proof -
  from move_target [of cs increment] assms obtain cs'
    where mv: "move cs increment = Inr (cs', Some t)" and same: "sameChoices cs cs'"
      and t: "t < length cs'" "Selected (cs' ! t)" "\<not> hidden (cs' ! t)"
    by auto
  have "selectedPositions cs' = [t]" if "length (visibleSelected cs) \<le> 1"
    using move_result [OF that, of increment] mv assms by simp
  with mv same t show ?thesis by (auto simp: selects_def)
qed

text \<open>Moves by at least the number of the visible choices.\<close>

lemma moveTarget_far_up:
  assumes "int (length (notHidden cs)) \<le> step" and "step \<le> 2 ^ 63"
  shows "moveTarget cs (wrap64 (- step))
           = (if notHidden cs = [] then None else Some (hd (notHidden cs)))"
proof (cases "visibleSelected cs")
  case Nil
  then show ?thesis by (simp add: moveTarget_def)
next
  case (Cons i rest)
  from filter_upt_Cons [OF Cons [unfolded visibleSelected_def]]
  have i: "i < length (notHidden cs)" by simp
  from assms i have neg: "wrap64 (- step) = - step" by (intro wrap64_id) simp_all
  from assms i have "wrap64 (int i + - step) = int i + - step" by (intro wrap64_id) simp_all
  with assms i have "wrapIndex (length (notHidden cs)) i (- step) = 0"
    by (simp add: wrapIndex_def)
  with Cons i neg show ?thesis by (auto simp: moveTarget_def hd_conv_nth)
qed

lemma moveTarget_far_down:
  assumes "int (length (notHidden cs)) \<le> step"
    and "int (length (notHidden cs)) + step \<le> 2 ^ 63"
  shows "moveTarget cs step
           = (if notHidden cs = [] then None
              else if visibleSelected cs = [] then Some (hd (notHidden cs))
              else Some (last (notHidden cs)))"
proof (cases "visibleSelected cs")
  case Nil
  then show ?thesis by (simp add: moveTarget_def)
next
  case (Cons i rest)
  from filter_upt_Cons [OF Cons [unfolded visibleSelected_def]]
  have i: "i < length (notHidden cs)" by simp
  from assms i have "wrap64 (int i + step) = int i + step" by (intro wrap64_id) simp_all
  with assms i have "wrapIndex (length (notHidden cs)) i step = length (notHidden cs) - 1"
    by (auto simp: wrapIndex_def)
  with Cons i show ?thesis by (auto simp: moveTarget_def last_conv_nth)
qed

lemma move_returns: "\<exists>cs' r. move cs increment = Inr (cs', r)"
proof (cases "selectedExists cs")
  case True
  then obtain i where "selectedIndex (clearHidden cs) (notHidden cs) = Some i"
    using selectedExists_index by blast
  then show ?thesis
    by (simp add: move_def Let_def)
next
  case False
  then show ?thesis
    by (simp add: move_def Let_def)
qed

section \<open>Properties of the session\<close>

lemma containsSubstring_Nil [simp]: "containsSubstring v []"
  by (cases v) simp_all

lemma containsSubstring_iff: "containsSubstring v query \<longleftrightarrow> (\<exists>ps ss. v = ps @ query @ ss)"
proof (induction v)
  case Nil
  then show ?case by auto
next
  case (Cons c v)
  show ?case
  proof
    assume "containsSubstring (c # v) query"
    then consider "take (length query) (c # v) = query" | "containsSubstring v query" by auto
    then show "\<exists>ps ss. c # v = ps @ query @ ss"
    proof cases
      case 1
      then have "c # v = [] @ query @ drop (length query) (c # v)"
        by (metis append_Nil append_take_drop_id)
      then show ?thesis by blast
    next
      case 2
      with Cons.IH obtain ps ss where "v = ps @ query @ ss" by blast
      then have "c # v = (c # ps) @ query @ ss" by simp
      then show ?thesis by blast
    qed
  next
    assume "\<exists>ps ss. c # v = ps @ query @ ss"
    then obtain ps ss where eq: "c # v = ps @ query @ ss" by blast
    show "containsSubstring (c # v) query"
    proof (cases ps)
      case Nil
      with eq have "take (length query) (c # v) = query" by simp
      then show ?thesis by simp
    next
      case (Cons a ps')
      with eq have "v = ps' @ query @ ss" by simp
      with Cons.IH have "containsSubstring v query" by blast
      then show ?thesis by simp
    qed
  qed
qed

lemma newChoices_length [simp]: "length (newChoices input) = length input"
  by (simp add: newChoices_def)

lemma newChoices_nth:
  "p < length input \<Longrightarrow>
     newChoices input ! p = \<lparr>Id_c = int p, Value = input ! p, Selected = (p = 0), hidden = False\<rparr>"
  by (simp add: newChoices_def nth_enumerate_eq)

lemma notHidden_all: "(\<And>p. p < length cs \<Longrightarrow> \<not> hidden (cs ! p)) \<Longrightarrow> notHidden cs = [0..<length cs]"
  by (simp add: notHidden_def)

lemma sessionInv_new:
  assumes "input \<noteq> []"
  shows "sessionInv input (newSession input)"
proof -
  from assms have pos: "0 < length input" by simp
  have "map Id_c (newChoices input) = map int [0..<length input]"
    by (rule nth_equalityI) (simp_all add: newChoices_nth)
  moreover have "map Value (newChoices input) = input"
    by (rule nth_equalityI) (simp_all add: newChoices_nth)
  moreover have "map hidden (newChoices input) = map (\<lambda>v. \<not> containsSubstring v []) input"
    by (rule nth_equalityI) (simp_all add: newChoices_nth)
  moreover have "selectedPositions (newChoices input) = [0]"
    unfolding selectedPositions_def
    by (rule filter_upt_single) (use pos in \<open>simp_all add: newChoices_nth\<close>)
  moreover have "notHidden (newChoices input) = [0..<length input]"
    using notHidden_all [of "newChoices input"] by (simp add: newChoices_nth)
  ultimately show ?thesis
    using pos by (simp add: sessionInv_def newSession_def)
qed

lemma render_choices:
  assumes "sessionInv input s"
  shows "choices (renderQuery s) = choices s"
proof -
  from assms have v: "map Value (choices s) = input"
    and h: "map hidden (choices s) = map (\<lambda>v. \<not> containsSubstring v (searchQuery s)) input"
    by (simp_all add: sessionInv_def)
  from v have len: "length (choices s) = length input" by (metis length_map)
  have "hidden (choices s ! p) = (\<not> containsSubstring (Value (choices s ! p)) (searchQuery s))"
    if "p < length (choices s)" for p
  proof -
    from that len have "hidden (choices s ! p) = (\<not> containsSubstring (input ! p) (searchQuery s))"
      by (metis h nth_map)
    moreover from that have "Value (choices s ! p) = input ! p"
      by (metis v nth_map)
    ultimately show ?thesis by simp
  qed
  then show ?thesis
    by (auto simp: renderQuery_def intro!: nth_equalityI)
qed

lemma renderQuery_eq:
  assumes "sessionInv input s"
  shows "renderQuery s = s\<lparr>renders := Suc (renders s)\<rparr>"
proof -
  have m: "map (\<lambda>c. c\<lparr>hidden := \<not> containsSubstring (Value c) (searchQuery s)\<rparr>) (choices s)
             = choices s"
    using render_choices [OF assms] by (simp add: renderQuery_def)
  show ?thesis unfolding renderQuery_def m by simp
qed

lemma sessionInv_renders: "sessionInv input (s\<lparr>renders := n\<rparr>) = sessionInv input s"
  by (simp add: sessionInv_def cong: option.case_cong)

lemma sessionInv_render: "sessionInv input s \<Longrightarrow> sessionInv input (renderQuery s)"
  by (simp add: renderQuery_eq sessionInv_renders)

lemma moveTarget_mem:
  "case moveTarget cs increment of None \<Rightarrow> notHidden cs = [] | Some t \<Rightarrow> t \<in> set (notHidden cs)"
proof (cases "notHidden cs = []")
  case True
  then show ?thesis by (simp add: moveTarget_def)
next
  case False
  show ?thesis
  proof (cases "visibleSelected cs")
    case Nil
    with False show ?thesis by (simp add: moveTarget_def)
  next
    case (Cons i rest)
    from False have "wrapIndex (length (notHidden cs)) i increment < length (notHidden cs)"
      by (intro wrapIndex_less) simp
    with False Cons show ?thesis by (simp add: moveTarget_def)
  qed
qed

text \<open>A move from a list with at most one selected choice.\<close>

lemma sessionInv_move:
  assumes inv: "sessionInv input s" and mv: "move (choices s) increment = Inr (cs', r)"
  shows "sessionInv input (s\<lparr>choices := cs', selectedChoice := r\<rparr>)"
proof -
  let ?cs = "choices s"
  from inv have "length (selectedPositions ?cs) \<le> 1"
    by (simp add: sessionInv_def split: option.split)
  with visibleSelected_le [of ?cs] have le: "length (visibleSelected ?cs) \<le> 1" by simp
  from move_result [OF le, of increment] mv
  have r: "r = moveTarget ?cs increment" and same: "sameChoices ?cs cs'"
    and sel: "selectedPositions cs' = (case r of None \<Rightarrow> [] | Some t \<Rightarrow> [t])"
    by auto
  from same have nh: "notHidden cs' = notHidden ?cs" by (rule sameChoices_notHidden)
  from moveTarget_mem [of ?cs increment] r nh
  have mem: "case r of None \<Rightarrow> notHidden cs' = [] | Some t \<Rightarrow> t \<in> set (notHidden cs')"
    by (simp cong: option.case_cong)
  from same inv have "map Id_c cs' = map int [0..<length input]" "map Value cs' = input"
    "map hidden cs' = map (\<lambda>v. \<not> containsSubstring v (searchQuery s)) input"
    by (simp_all add: sameChoices_def sessionInv_def)
  with sel mem show ?thesis by (simp add: sessionInv_def cong: option.case_cong)
qed

lemma sessionInv_assignMove:
  assumes "sessionInv input s"
  shows "\<exists>s'. assignMove s (move (choices s) increment) = Continue s' \<and> sessionInv input s'
           \<and> searchQuery s' = searchQuery s"
proof -
  from move_returns [of "choices s" increment]
  obtain cs' r where mv: "move (choices s) increment = Inr (cs', r)" by blast
  from sessionInv_move [OF assms mv] mv show ?thesis by (simp add: assignMove_def)
qed

lemma selectedPositions_hidden_upd:
  "selectedPositions (map (\<lambda>c. c\<lparr>hidden := f c\<rparr>) cs) = selectedPositions cs"
  unfolding selectedPositions_def by (auto intro: filter_cong)

lemma notHidden_filter:
  assumes "map hidden cs = map (\<lambda>v. \<not> P v) input"
  shows "notHidden cs = filter (\<lambda>p. P (input ! p)) [0..<length input]"
proof -
  from assms have len: "length cs = length input" by (metis length_map)
  have "hidden (cs ! p) = (\<not> P (input ! p))" if "p < length cs" for p
    using that len by (metis assms nth_map)
  then show ?thesis
    unfolding notHidden_def len [symmetric] by (auto intro: filter_cong)
qed

lemma sessionInv_editQuery:
  assumes inv: "sessionInv input s"
  shows "\<exists>s'. editQuery s query = Continue s' \<and> sessionInv input s' \<and> searchQuery s' = query
           \<and> (length input < 2 ^ 63 \<longrightarrow>
                selectedChoice s'
                  = (if notHidden (choices s') = [] then None
                     else Some (hd (notHidden (choices s')))))"
proof -
  let ?s1 = "renderQuery (s\<lparr>searchQuery := query\<rparr>)"
  let ?cs = "choices ?s1"
  have cs: "?cs = map (\<lambda>c. c\<lparr>hidden := \<not> containsSubstring (Value c) query\<rparr>) (choices s)"
    by (simp add: renderQuery_def)
  from inv have v: "map Value (choices s) = input" by (simp add: sessionInv_def)
  have ids: "map Id_c ?cs = map int [0..<length input]"
    using inv by (simp add: cs sessionInv_def comp_def)
  have vals: "map Value ?cs = input"
    using v by (simp add: cs comp_def)
  have hid: "map hidden ?cs = map (\<lambda>v. \<not> containsSubstring v query) input"
  proof -
    have "map hidden ?cs = map (\<lambda>c. \<not> containsSubstring (Value c) query) (choices s)"
      by (simp add: cs comp_def)
    also have "\<dots> = map (\<lambda>v. \<not> containsSubstring v query) (map Value (choices s))"
      by (simp add: comp_def)
    finally show ?thesis by (simp only: v)
  qed
  have "selectedPositions ?cs = selectedPositions (choices s)"
    unfolding cs by (rule selectedPositions_hidden_upd)
  with inv have "length (selectedPositions ?cs) \<le> 1"
    by (simp add: sessionInv_def split: option.split)
  with visibleSelected_le [of ?cs] have le: "length (visibleSelected ?cs) \<le> 1" by simp
  let ?r = "moveTarget ?cs (wrap64 (- int (length ?cs)))"
  from move_result [OF le, of "wrap64 (- int (length ?cs))"] obtain cs'
    where mv: "move ?cs (wrap64 (- int (length ?cs))) = Inr (cs', ?r)" and same: "sameChoices ?cs cs'"
      and sel: "selectedPositions cs' = (case ?r of None \<Rightarrow> [] | Some t \<Rightarrow> [t])"
    by blast
  from same have nh: "notHidden cs' = notHidden ?cs" by (rule sameChoices_notHidden)
  let ?s' = "?s1\<lparr>choices := cs', selectedChoice := ?r\<rparr>"
  have ed: "editQuery s query = Continue ?s'"
    using mv by (simp add: editQuery_def Let_def assignMove_def moveUp_def)
  have q: "searchQuery ?s' = query" by (simp add: renderQuery_def)
  from moveTarget_mem [of ?cs "wrap64 (- int (length ?cs))"] nh
  have mem: "case ?r of None \<Rightarrow> notHidden cs' = [] | Some t \<Rightarrow> t \<in> set (notHidden cs')"
    by (simp cong: option.case_cong)
  from same ids vals hid have "map Id_c cs' = map int [0..<length input]" "map Value cs' = input"
    "map hidden cs' = map (\<lambda>v. \<not> containsSubstring v query) input"
    by (simp_all add: sameChoices_def)
  with sel mem q have inv': "sessionInv input ?s'"
    unfolding sessionInv_def by (simp cong: option.case_cong)
  have "selectedChoice ?s' = (if notHidden (choices ?s') = [] then None
      else Some (hd (notHidden (choices ?s'))))" if "length input < 2 ^ 63"
  proof -
    from vals have "length ?cs = length input" by (metis length_map)
    with that have "int (length ?cs) \<le> 2 ^ 63"
      by (metis less_imp_le of_nat_le_iff of_nat_numeral of_nat_power)
    moreover have "int (length (notHidden ?cs)) \<le> int (length ?cs)"
      by (simp add: notHidden_length)
    ultimately have "?r = (if notHidden ?cs = [] then None else Some (hd (notHidden ?cs)))"
      by (rule moveTarget_far_up [rotated])
    then show ?thesis by (simp add: nh)
  qed
  with inv' ed q show ?thesis by blast
qed

text \<open>One event handled in a session that satisfies the invariant.\<close>

lemma sessionInv_onEvent:
  assumes inv: "sessionInv input s"
  shows "case onEvent question height s ev of
           Continue s' \<Rightarrow> sessionInv input s'
         | Quit s' \<Rightarrow> s' = s \<or> s' = s\<lparr>selectedChoice := None\<rparr>
         | Panicked s' \<Rightarrow> False"
proof (cases ev)
  case (EventKey k)
  note mv = sessionInv_assignMove [OF inv]
  note ed = sessionInv_editQuery [OF inv]
  show ?thesis
  proof (cases k)
    case KeyUp with EventKey mv [of "wrap64 (- 1)"] show ?thesis by (auto simp: moveUp_def)
  next
    case KeyDown with EventKey mv [of 1] show ?thesis by (auto simp: moveDown_def)
  next
    case KeyHome with EventKey mv [of "wrap64 (- int (length (choices s)))"] show ?thesis
      by (auto simp: moveUp_def)
  next
    case KeyEnd with EventKey mv [of "int (length (choices s))"] show ?thesis
      by (auto simp: moveDown_def)
  next
    case KeyPgUp with EventKey mv [of "wrap64 (- computePageSize height question)"] show ?thesis
      by (auto simp: moveUp_def)
  next
    case KeyPgDn with EventKey mv [of "computePageSize height question"] show ?thesis
      by (auto simp: moveDown_def)
  next
    case KeyBackspace with EventKey ed [of "butlast (searchQuery s)"] inv show ?thesis by auto
  next
    case KeyBackspace2 with EventKey ed [of "butlast (searchQuery s)"] inv show ?thesis by auto
  next
    case (KeyRune r) with EventKey ed [of "searchQuery s @ r"] show ?thesis by auto
  qed (use EventKey inv in simp_all)
qed (use inv in simp_all)

lemma sessionInv_eventLoop:
  assumes "sessionInv input s"
  shows "case eventLoop question s events of
           Continue s' \<Rightarrow> sessionInv input s'
         | Quit s' \<Rightarrow> \<exists>s0. sessionInv input s0 \<and> (s' = s0 \<or> s' = s0\<lparr>selectedChoice := None\<rparr>)
         | Panicked s' \<Rightarrow> False"
  using assms
proof (induction events arbitrary: s)
  case Nil
  then show ?case by (simp add: sessionInv_render)
next
  case (Cons e events)
  obtain ev height where e: "e = (ev, height)" by (cases e)
  from Cons.prems have r: "sessionInv input (renderQuery s)" by (rule sessionInv_render)
  from sessionInv_onEvent [OF r, of question height ev] Cons.IH r
  show ?case
    unfolding e by (cases "onEvent question height (renderQuery s) ev") auto
qed

lemma eventLoop_append:
  assumes "eventLoop question s events = Continue s1"
  shows "eventLoop question s (events @ (ev, height) # rest)
           = (case onEvent question height s1 ev of
                Continue s' \<Rightarrow> eventLoop question s' rest
              | Quit s' \<Rightarrow> Quit s'
              | Panicked s' \<Rightarrow> Panicked s')"
  using assms
proof (induction events arbitrary: s)
  case Nil
  then show ?case by simp
next
  case (Cons e events)
  obtain ev' h' where e: "e = (ev', h')" by (cases e)
  from Cons.prems show ?case
    unfolding e
    by (cases "onEvent question h' (renderQuery s) ev'") (simp_all add: Cons.IH)
qed

lemma sessionInv_selectionInvariant:
  assumes "sessionInv input s"
  shows "selectionInvariant (choices s)"
proof (cases "selectedChoice s")
  case None
  with assms have "notHidden (choices s) = []" "selectedPositions (choices s) = []"
    by (simp_all add: sessionInv_def)
  with visibleSelected_le [of "choices s"] show ?thesis
    by (simp add: selectionInvariant_def)
next
  case (Some p)
  let ?cs = "choices s"
  from Some assms have p: "p \<in> set (notHidden ?cs)" and sel: "selectedPositions ?cs = [p]"
    by (simp_all add: sessionInv_def)
  from p obtain j where j: "j < length (notHidden ?cs)" "notHidden ?cs ! j = p"
    by (auto simp: in_set_conv_nth)
  have "p \<in> set (selectedPositions ?cs)" by (simp add: sel)
  then have "Selected (?cs ! p)" by (simp add: selectedPositions_def)
  with j have "j \<in> set (visibleSelected ?cs)" by (simp add: visibleSelected_def)
  then have "0 < length (visibleSelected ?cs)" by (rule length_pos_if_in_set)
  moreover from visibleSelected_le [of ?cs] sel have "length (visibleSelected ?cs) \<le> 1" by simp
  ultimately have "length (visibleSelected ?cs) = 1" by linarith
  with p show ?thesis by (auto simp: selectionInvariant_def)
qed

lemma sample_run: "eventLoop ''Pick:'' (newSession sampleInput) sampleEvents = Continue sampleFiltered"
  by code_simp

lemma sessionInv_returned:
  assumes "sessionInv input s"
  shows "case selectedChoice s of
           None \<Rightarrow> returned s = Inl ErrNoChoiceSelected \<and> notHidden (choices s) = []
         | Some p \<Rightarrow> returned s = Inr (input ! p, int p) \<and> p < length input
             \<and> \<not> hidden (choices s ! p) \<and> selectedPositions (choices s) = [p]"
proof (cases "selectedChoice s")
  case None
  with assms show ?thesis by (simp add: sessionInv_def returned_def)
next
  case (Some p)
  with assms have p: "p \<in> set (notHidden (choices s))"
    and sel: "selectedPositions (choices s) = [p]"
    and v: "map Value (choices s) = input"
    and ids: "map Id_c (choices s) = map int [0..<length input]"
    by (simp_all add: sessionInv_def)
  from v have len: "length (choices s) = length input" by (metis length_map)
  from p have b: "p < length (choices s)" "\<not> hidden (choices s ! p)"
    using notHidden_bound by blast+
  from b(1) v have "Value (choices s ! p) = input ! p" by (metis nth_map)
  moreover from b(1) len have "Id_c (choices s ! p) = int p"
    by (metis ids nth_map nth_upt add_0 length_map length_upt diff_zero)
  ultimately show ?thesis using Some b len sel by (simp add: returned_def)
qed

section \<open>Properties of render\<close>

lemma printOptions_drop:
  assumes "map Id_c options = map int [b..<b + length options]"
  shows "printOptions mn R ln options
           = map (\<lambda>j. printOption (ln + int j) (options ! (nat (mn + 1 - R - int b + 1) + j)))
               [0..<length options - nat (mn + 1 - R - int b + 1)]"
  using assms
proof (induction options arbitrary: b ln)
  case Nil
  then show ?case by simp
next
  case (Cons opt rest)
  have "[b..<b + length (opt # rest)] = b # [Suc b..<b + length (opt # rest)]"
    by (rule upt_conv_Cons) simp
  then have "[b..<b + length (opt # rest)] = b # [Suc b..<Suc b + length rest]"
    by (simp del: upt_Suc)
  with Cons.prems have "map Id_c (opt # rest) = map int (b # [Suc b..<Suc b + length rest])"
    by (simp only:)
  then have id: "Id_c opt = int b"
    and ids: "map Id_c rest = map int [Suc b..<Suc b + length rest]"
    by (simp_all del: upt_Suc)
  note IH = Cons.IH [OF ids]
  show ?case
  proof (cases "int b \<le> mn + 1 - R")
    case True
    then have k: "nat (mn + 1 - R - int b + 1) = Suc (nat (mn + 1 - R - int (Suc b) + 1))"
      by simp
    from True id have "printOptions mn R ln (opt # rest) = printOptions mn R ln rest" by simp
    also note IH [of ln]
    finally show ?thesis unfolding k by simp
  next
    case False
    then have k: "nat (mn + 1 - R - int b + 1) = 0" "nat (mn + 1 - R - int (Suc b) + 1) = 0"
      by simp_all
    from False id have "printOptions mn R ln (opt # rest)
        = printOption ln opt # printOptions mn R (ln + 1) rest" by simp
    also note IH [of "ln + 1"]
    finally show ?thesis unfolding k
      by (simp add: map_upt_Suc add.assoc del: upt_Suc)
  qed
qed

lemma render_window_eq:
  assumes "map Id_c options = map int [0..<length options]" and "s < length options"
  shows "render height question options (options ! s)
           = printLines 0 (splitLines question)
             @ map (\<lambda>j. printOption (int (length (splitLines question)) + int j)
                        (options ! (windowStart height (int (length (splitLines question))) s + j)))
                 [0..<length options - windowStart height (int (length (splitLines question))) s]"
proof -
  from assms have id: "Id_c (options ! s) = int s"
    by (metis nth_map nth_upt add_0 length_upt diff_zero)
  from assms(1) have ids: "map Id_c options = map int [0..<0 + length options]" by simp
  show ?thesis
    unfolding render_def Let_def id printOptions_drop [OF ids] windowStart_def
    by (auto intro!: map_cong arg_cong [where f = nat] simp: algebra_simps)
qed

section \<open>The claims\<close>

text \<open>
  C1. The selection invariant holds of the choices that \<open>pick\<close> constructs from a
  non-empty input and of the session after every sequence of events, whether the loop
  then waits for the next event or has returned; the loop never panics. The hidden flags
  are written by the modelled \<open>render\<close>.
\<close>

theorem selection_invariant:
  assumes "choicesToPickFrom \<noteq> []"
  shows "selectionInvariant (choices (newSession choicesToPickFrom))
       \<and> (case eventLoop question (newSession choicesToPickFrom) events of
            Continue s \<Rightarrow> selectionInvariant (choices s)
          | Quit s \<Rightarrow> selectionInvariant (choices s)
          | Panicked s \<Rightarrow> False)"
proof -
  have new: "sessionInv choicesToPickFrom (newSession choicesToPickFrom)"
    using assms by (rule sessionInv_new)
  have "selectionInvariant (choices s')"
    if "sessionInv choicesToPickFrom s0" "s' = s0 \<or> s' = s0\<lparr>selectedChoice := None\<rparr>" for s0 s'
    using that sessionInv_selectionInvariant [of choicesToPickFrom s0] by auto
  with sessionInv_eventLoop [OF new, of question events]
    sessionInv_selectionInvariant [of choicesToPickFrom]
  have "case eventLoop question (newSession choicesToPickFrom) events of
            Continue s \<Rightarrow> selectionInvariant (choices s)
          | Quit s \<Rightarrow> selectionInvariant (choices s)
          | Panicked s \<Rightarrow> False"
    by (cases "eventLoop question (newSession choicesToPickFrom) events") auto
  with sessionInv_selectionInvariant [OF new] show ?thesis by simp
qed

theorem selection_invariant_witness:
  "sampleInput \<noteq> []
   \<and> selectionInvariant (choices (newSession sampleInput))
   \<and> (case eventLoop ''Pick:'' (newSession sampleInput) sampleEvents of
        Continue s \<Rightarrow> selectionInvariant (choices s)
      | Quit s \<Rightarrow> selectionInvariant (choices s)
      | Panicked s \<Rightarrow> False)"
proof -
  have ne: "sampleInput \<noteq> []" by (simp add: sampleInput_def)
  from selection_invariant [OF ne, of "''Pick:''" sampleEvents] ne show ?thesis by simp
qed

text \<open>
  C2. In a session that \<open>pick\<close> can reach, a rune appended to the query or a backspace on
  a non-empty query leaves the session with the new query, visible exactly the choices
  whose value contains the new query, and the first of them selected and pointed to by
  \<open>selectedChoice\<close>; when none is visible no choice is selected and the pointer is
  \<open>nil\<close>. The filter is the modelled \<open>render\<close>, the selection is \<open>moveUp\<close> by the number
  of choices. The input is a Go slice, so its length is an \<open>int\<close>, below \<open>2^63\<close>.
\<close>

theorem query_edit:
  assumes "choicesToPickFrom \<noteq> []" and "length choicesToPickFrom < 2 ^ 63"
    and "eventLoop question (newSession choicesToPickFrom) events = Continue s"
    and "ev = EventKey (KeyRune r) \<and> query = searchQuery s @ r
         \<or> (ev = EventKey KeyBackspace \<or> ev = EventKey KeyBackspace2)
             \<and> searchQuery s \<noteq> [] \<and> query = butlast (searchQuery s)"
  shows "\<exists>s'. onEvent question height s ev = Continue s'
           \<and> searchQuery s' = query
           \<and> map Value (choices s') = choicesToPickFrom
           \<and> notHidden (choices s')
               = filter (\<lambda>p. containsSubstring (choicesToPickFrom ! p) query)
                   [0..<length choicesToPickFrom]
           \<and> selectedChoice s'
               = (if notHidden (choices s') = [] then None else Some (hd (notHidden (choices s'))))
           \<and> selectedPositions (choices s')
               = (if notHidden (choices s') = [] then [] else [hd (notHidden (choices s'))])"
proof -
  have new: "sessionInv choicesToPickFrom (newSession choicesToPickFrom)"
    using assms(1) by (rule sessionInv_new)
  from sessionInv_eventLoop [OF new, of question events] assms(3)
  have inv: "sessionInv choicesToPickFrom s" by simp
  from assms(4) have ed: "onEvent question height s ev = editQuery s query" by auto
  from sessionInv_editQuery [OF inv, of query] assms(2) obtain s'
    where s': "editQuery s query = Continue s'" "sessionInv choicesToPickFrom s'"
      "searchQuery s' = query"
      "selectedChoice s'
         = (if notHidden (choices s') = [] then None else Some (hd (notHidden (choices s'))))"
    by blast
  from s'(2,3) have hid: "map hidden (choices s')
      = map (\<lambda>v. \<not> containsSubstring v query) choicesToPickFrom"
    by (simp add: sessionInv_def)
  from s'(2) have vals: "map Value (choices s') = choicesToPickFrom"
    by (simp add: sessionInv_def)
  from s'(2) have "selectedPositions (choices s')
      = (case selectedChoice s' of None \<Rightarrow> [] | Some p \<Rightarrow> [p])"
    by (simp add: sessionInv_def)
  with s'(4) have sel: "selectedPositions (choices s')
      = (if notHidden (choices s') = [] then [] else [hd (notHidden (choices s'))])"
    by simp
  show ?thesis
    using ed s'(1,3,4) vals sel notHidden_filter [OF hid] by auto
qed

theorem query_edit_witness:
  "sampleInput \<noteq> [] \<and> length sampleInput < 2 ^ 63
   \<and> eventLoop ''Pick:'' (newSession sampleInput) sampleEvents = Continue sampleFiltered
   \<and> searchQuery sampleFiltered \<noteq> []
   \<and> (\<exists>s'. onEvent ''Pick:'' 24 sampleFiltered (EventKey KeyBackspace) = Continue s'
           \<and> searchQuery s' = ''a''
           \<and> notHidden (choices s') = [0, 1]
           \<and> selectedChoice s' = Some 0
           \<and> selectedPositions (choices s') = [0])
   \<and> (\<exists>s'. onEvent ''Pick:'' 24 sampleFiltered (EventKey (KeyRune ''x'')) = Continue s'
           \<and> searchQuery s' = ''anx''
           \<and> notHidden (choices s') = []
           \<and> selectedChoice s' = None
           \<and> selectedPositions (choices s') = [])"
proof -
  have ne: "sampleInput \<noteq> []" by (simp add: sampleInput_def)
  have len: "length sampleInput < 2 ^ 63" by (simp add: sampleInput_def)
  have q: "searchQuery sampleFiltered = ''an''" by (simp add: sampleFiltered_def)
  have f1: "filter (\<lambda>p. containsSubstring (sampleInput ! p) ''a'') [0..<length sampleInput] = [0, 1]"
    by code_simp
  have f2: "filter (\<lambda>p. containsSubstring (sampleInput ! p) ''anx'') [0..<length sampleInput] = []"
    by code_simp
  note a = query_edit [OF ne len sample_run, of "EventKey KeyBackspace" _ "''a''" 24]
  note b = query_edit [OF ne len sample_run, of "EventKey (KeyRune ''x'')" "''x''" "''anx''" 24]
  from a have a': "\<exists>s'. onEvent ''Pick:'' 24 sampleFiltered (EventKey KeyBackspace) = Continue s'
           \<and> searchQuery s' = ''a'' \<and> notHidden (choices s') = [0, 1]
           \<and> selectedChoice s' = Some 0 \<and> selectedPositions (choices s') = [0]"
    unfolding f1 q by (auto simp del: onEvent.simps)
  from b have b': "\<exists>s'. onEvent ''Pick:'' 24 sampleFiltered (EventKey (KeyRune ''x'')) = Continue s'
           \<and> searchQuery s' = ''anx'' \<and> notHidden (choices s') = []
           \<and> selectedChoice s' = None \<and> selectedPositions (choices s') = []"
    unfolding f2 q by (auto simp del: onEvent.simps)
  from ne len sample_run q a' b' show ?thesis by simp
qed

text \<open>
  C10. The \<open>panic("Something went wrong")\<close> at the end of \<open>move\<close> is unreachable: the scan
  for the selected entry runs only when the first loop has seen a selected choice that is
  not hidden, and then it finds one and returns. So \<open>move\<close> returns a value on every choice
  list and every increment, in particular on every list in which a non-hidden choice is
  selected.
\<close>

theorem move_never_panics: "\<exists>cs' r. move cs increment = Inr (cs', r)"
  by (rule move_returns)

text \<open>
  C3, as the code has it. When exactly one visible choice is selected, at index \<open>i\<close> of
  the list of the visible choices (of length \<open>L\<close>), and \<open>i + step\<close> does not exceed the
  largest \<open>int\<close>, a move down by \<open>step \<ge> 1\<close> returns the visible choice at \<open>i + step\<close>
  clamped into \<open>[0, L - 1]\<close>, a move up the one at \<open>i - step\<close> clamped; afterwards that
  choice is the only selected one and nothing but the selected flags has changed. This
  includes the moves at a boundary, where the target is \<open>i\<close> itself.
\<close>

theorem move_clamps:
  assumes "visibleSelected cs = [i]" and "1 \<le> step" and "int i + step < 2 ^ 63"
  shows "(\<exists>cs'. moveDown cs step
             = Inr (cs', Some (notHidden cs ! clampIndex (length (notHidden cs)) i step))
           \<and> selectedPositions cs' = [notHidden cs ! clampIndex (length (notHidden cs)) i step]
           \<and> sameChoices cs cs')
       \<and> (\<exists>cs'. moveUp cs step
             = Inr (cs', Some (notHidden cs ! clampIndex (length (notHidden cs)) i (- step)))
           \<and> selectedPositions cs' = [notHidden cs ! clampIndex (length (notHidden cs)) i (- step)]
           \<and> sameChoices cs cs')"
proof -
  from assms(1) have le: "length (visibleSelected cs) \<le> 1" by simp
  from filter_upt_Cons [OF assms(1) [unfolded visibleSelected_def]]
  have ne: "notHidden cs \<noteq> []" by auto
  have tgt: "moveTarget cs k = Some (notHidden cs ! wrapIndex (length (notHidden cs)) i k)" for k
    using assms(1) ne by (simp add: moveTarget_def)
  from assms(2,3) have neg: "wrap64 (- step) = - step" by (intro wrap64_id) simp_all
  from assms(2,3) have down: "wrapIndex (length (notHidden cs)) i step
      = clampIndex (length (notHidden cs)) i step"
    by (intro wrapIndex_clamp) simp_all
  from assms(2,3) have up: "wrapIndex (length (notHidden cs)) i (- step)
      = clampIndex (length (notHidden cs)) i (- step)"
    by (intro wrapIndex_clamp) simp_all
  from move_result [OF le, of step] move_result [OF le, of "- step"]
  show ?thesis
    by (auto simp: moveDown_def moveUp_def tgt neg down up)
qed

theorem move_clamps_witness:
  "visibleSelected sampleChoices = [1]
   \<and> (\<exists>cs'. moveDown sampleChoices 5 = Inr (cs', Some 4) \<and> selectedPositions cs' = [4]
          \<and> sameChoices sampleChoices cs')
   \<and> (\<exists>cs'. moveUp sampleChoices 1 = Inr (cs', Some 0) \<and> selectedPositions cs' = [0]
          \<and> sameChoices sampleChoices cs')"
proof -
  have vs: "visibleSelected sampleChoices = [1]" by code_simp
  have nh: "notHidden sampleChoices = [0, 2, 3, 4]" by code_simp
  from move_clamps [OF vs, of 5] move_clamps [OF vs, of 1] vs
  show ?thesis by (simp add: nh clampIndex_def)
qed

text \<open>
  C3 as stated fails for the largest steps. The third of the sample choices is selected,
  at index 1 of the four visible ones; a move down by \<open>2^63 - 1\<close> makes the sum wrap to
  \<open>-2^63\<close>, and \<open>move\<close> selects and returns the first choice where the clamped target is
  the last one.
\<close>

theorem move_wraps_counterexample:
  "visibleSelected sampleChoices = [1] \<and> notHidden sampleChoices = [0, 2, 3, 4]
   \<and> moveDown sampleChoices 9223372036854775807
       = Inr ([\<lparr>Id_c = 0, Value = ''ant'', Selected = True, hidden = False\<rparr>,
               \<lparr>Id_c = 1, Value = ''bee'', Selected = False, hidden = True\<rparr>,
               \<lparr>Id_c = 2, Value = ''cat'', Selected = False, hidden = False\<rparr>,
               \<lparr>Id_c = 3, Value = ''tan'', Selected = False, hidden = False\<rparr>,
               \<lparr>Id_c = 4, Value = ''rat'', Selected = False, hidden = False\<rparr>],
              Some 0)"
  by code_simp

text \<open>
  C6, as the code has it. For every list of fewer than \<open>2^62\<close> choices with at least one
  visible choice and every setting of the selected flags: the Home key selects the first
  visible choice; the End key selects the last visible choice when a visible choice is
  selected, and the first visible choice when none is, since \<open>move\<close> then selects the first
  entry whatever the direction. \<open>pick\<close> passes the number of all choices as the step; the
  same holds for a move by the number of the visible choices.
\<close>

theorem home_end:
  assumes "notHidden (choices s) \<noteq> []" and "length (choices s) < 2 ^ 62"
  shows "(\<exists>cs'. onEvent question height s (EventKey KeyHome)
             = Continue (s\<lparr>choices := cs', selectedChoice := Some (hd (notHidden (choices s)))\<rparr>)
           \<and> selects (choices s) cs' (hd (notHidden (choices s))))
       \<and> (\<exists>cs'. onEvent question height s (EventKey KeyEnd)
             = Continue (s\<lparr>choices := cs', selectedChoice :=
                  Some (if visibleSelected (choices s) = [] then hd (notHidden (choices s))
                        else last (notHidden (choices s)))\<rparr>)
           \<and> selects (choices s) cs'
                 (if visibleSelected (choices s) = [] then hd (notHidden (choices s))
                  else last (notHidden (choices s))))
       \<and> (\<exists>cs'. moveUp (choices s) (int (length (notHidden (choices s))))
             = Inr (cs', Some (hd (notHidden (choices s))))
           \<and> selects (choices s) cs' (hd (notHidden (choices s))))
       \<and> (\<exists>cs'. moveDown (choices s) (int (length (notHidden (choices s))))
             = Inr (cs', Some (if visibleSelected (choices s) = [] then hd (notHidden (choices s))
                               else last (notHidden (choices s))))
           \<and> selects (choices s) cs'
                 (if visibleSelected (choices s) = [] then hd (notHidden (choices s))
                  else last (notHidden (choices s))))"
proof -
  let ?cs = "choices s"
  let ?nh = "notHidden ?cs"
  let ?e = "if visibleSelected ?cs = [] then hd ?nh else last ?nh"
  from assms(2) have "int (length ?cs) < int (2 ^ 62)" by (simp only: of_nat_less_iff)
  then have len: "int (length ?cs) < 2 ^ 62" by simp
  have vis: "int (length ?nh) \<le> int (length ?cs)" by (simp add: notHidden_length)
  have up: "moveTarget ?cs (wrap64 (- step)) = Some (hd ?nh)"
    if "int (length ?nh) \<le> step" "step \<le> int (length ?cs)" for step
    using moveTarget_far_up [of ?cs step] that len assms(1) by simp
  have down: "moveTarget ?cs step = Some ?e"
    if "int (length ?nh) \<le> step" "step \<le> int (length ?cs)" for step
    using moveTarget_far_down [of ?cs step] that len vis assms(1) by simp
  from move_selects [OF up [OF vis order_refl]]
  have home: "\<exists>cs'. onEvent question height s (EventKey KeyHome)
             = Continue (s\<lparr>choices := cs', selectedChoice := Some (hd ?nh)\<rparr>)
           \<and> selects ?cs cs' (hd ?nh)"
    by (auto simp: assignMove_def moveUp_def)
  from move_selects [OF down [OF vis order_refl]]
  have "end": "\<exists>cs'. onEvent question height s (EventKey KeyEnd)
             = Continue (s\<lparr>choices := cs', selectedChoice := Some ?e\<rparr>)
           \<and> selects ?cs cs' ?e"
    by (auto simp: assignMove_def moveDown_def)
  from move_selects [OF up [OF order_refl vis]]
  have mu: "\<exists>cs'. moveUp ?cs (int (length ?nh)) = Inr (cs', Some (hd ?nh))
           \<and> selects ?cs cs' (hd ?nh)"
    by (simp add: moveUp_def)
  from move_selects [OF down [OF order_refl vis]]
  have md: "\<exists>cs'. moveDown ?cs (int (length ?nh)) = Inr (cs', Some ?e) \<and> selects ?cs cs' ?e"
    by (simp add: moveDown_def)
  from home "end" mu md show ?thesis by (intro conjI)
qed

theorem home_end_witness:
  "notHidden (choices sampleSession) \<noteq> [] \<and> length (choices sampleSession) < 2 ^ 62
   \<and> length (visibleSelected (choices sampleSession)) \<le> 1
   \<and> (\<exists>cs'. onEvent ''Pick:'' 24 sampleSession (EventKey KeyHome)
             = Continue (sampleSession\<lparr>choices := cs', selectedChoice := Some 0\<rparr>)
           \<and> selectedPositions cs' = [0])
   \<and> (\<exists>cs'. onEvent ''Pick:'' 24 sampleSession (EventKey KeyEnd)
             = Continue (sampleSession\<lparr>choices := cs', selectedChoice := Some 4\<rparr>)
           \<and> selectedPositions cs' = [4])"
proof -
  have c: "choices sampleSession = sampleChoices" by (simp add: sampleSession_def)
  have vs: "visibleSelected sampleChoices = [1]" by code_simp
  have nh: "notHidden sampleChoices = [0, 2, 3, 4]" by code_simp
  have ne: "notHidden (choices sampleSession) \<noteq> []" by (simp add: c nh)
  have len: "length (choices sampleSession) < 2 ^ 62" by (simp add: c sampleChoices_def)
  from home_end [OF ne len, of "''Pick:''" 24] ne len
  show ?thesis unfolding c nh vs selects_def by auto
qed

text \<open>
  C6 as stated fails when the selected choice is hidden: of the three visible choices
  none is selected, and a move down by their number selects and returns the first of
  them, position 0, where the last one is position 3.
\<close>

theorem end_recovers_counterexample:
  "notHidden sampleHiddenSelected = [0, 2, 3]
   \<and> moveDown sampleHiddenSelected 3
       = Inr ([\<lparr>Id_c = 0, Value = ''ant'', Selected = True, hidden = False\<rparr>,
               \<lparr>Id_c = 1, Value = ''bee'', Selected = False, hidden = True\<rparr>,
               \<lparr>Id_c = 2, Value = ''cat'', Selected = False, hidden = False\<rparr>,
               \<lparr>Id_c = 3, Value = ''tan'', Selected = False, hidden = False\<rparr>],
              Some 0)"
  by code_simp

text \<open>
  C7. \<open>computePageSize\<close> returns the height minus the number of prompt lines minus one
  when the height exceeds the number of prompt lines, and the height itself otherwise.
  PageDown and PageUp never panic, whatever the height and the session. For a height that
  is not negative (a row count) the step is not negative either, and as long as the number
  of choices plus the height stays below \<open>2^63\<close> no sum wraps: with one visible choice
  selected, PageDown returns a visible choice at or after the selected one and PageUp one
  at or before it. A height of at most the number of prompt lines is within this bound,
  the choices and the prompt being a slice and a string in memory.
\<close>

theorem page_size:
  "(int (length (splitLines question)) < height \<longrightarrow>
       computePageSize height question = height - int (length (splitLines question)) - 1)
   \<and> (height \<le> int (length (splitLines question)) \<longrightarrow> computePageSize height question = height)
   \<and> (\<exists>s'. onEvent question height s (EventKey KeyPgDn) = Continue s')
   \<and> (\<exists>s'. onEvent question height s (EventKey KeyPgUp) = Continue s')
   \<and> (0 \<le> height \<and> int (length (choices s)) + height < 2 ^ 63
        \<and> visibleSelected (choices s) = [i] \<longrightarrow>
       (\<exists>cs' t. onEvent question height s (EventKey KeyPgDn)
             = Continue (s\<lparr>choices := cs', selectedChoice := Some (notHidden (choices s) ! t)\<rparr>)
           \<and> i \<le> t \<and> t < length (notHidden (choices s))
           \<and> selectedPositions cs' = [notHidden (choices s) ! t])
     \<and> (\<exists>cs' t. onEvent question height s (EventKey KeyPgUp)
             = Continue (s\<lparr>choices := cs', selectedChoice := Some (notHidden (choices s) ! t)\<rparr>)
           \<and> t \<le> i
           \<and> selectedPositions cs' = [notHidden (choices s) ! t]))"
proof (intro conjI impI)
  show "computePageSize height question = height - int (length (splitLines question)) - 1"
    if "int (length (splitLines question)) < height"
    using that by (simp add: computePageSize_def Let_def)
  show "computePageSize height question = height"
    if "height \<le> int (length (splitLines question))"
    using that by (simp add: computePageSize_def Let_def)
  show "\<exists>s'. onEvent question height s (EventKey KeyPgDn) = Continue s'"
    using move_returns [of "choices s" "computePageSize height question"]
    by (auto simp: assignMove_def moveDown_def)
  show "\<exists>s'. onEvent question height s (EventKey KeyPgUp) = Continue s'"
    using move_returns [of "choices s" "wrap64 (- computePageSize height question)"]
    by (auto simp: assignMove_def moveUp_def)
next
  assume h: "0 \<le> height \<and> int (length (choices s)) + height < 2 ^ 63
    \<and> visibleSelected (choices s) = [i]"
  let ?cs = "choices s" and ?k = "computePageSize height question"
  let ?nh = "notHidden ?cs"
  from h have vs: "visibleSelected ?cs = [i]" by simp
  then have le: "length (visibleSelected ?cs) \<le> 1" by simp
  from filter_upt_Cons [OF vs [unfolded visibleSelected_def]]
  have i: "i < length ?nh" by simp
  then have ne: "?nh \<noteq> []" by auto
  from i notHidden_length [of ?cs] have il: "int i < int (length ?cs)" by simp
  have k: "0 \<le> ?k" "?k \<le> height" using h by (simp_all add: computePageSize_def Let_def)
  have tgt: "moveTarget ?cs n = Some (?nh ! wrapIndex (length ?nh) i n)" for n
    using vs ne by (simp add: moveTarget_def)
  from h k il have neg: "wrap64 (- ?k) = - ?k" by (intro wrap64_id) simp_all
  from h k il have wd: "wrapIndex (length ?nh) i ?k = clampIndex (length ?nh) i ?k"
    by (intro wrapIndex_clamp) simp_all
  from h k il have wu: "wrapIndex (length ?nh) i (- ?k) = clampIndex (length ?nh) i (- ?k)"
    by (intro wrapIndex_clamp) simp_all
  have dn: "i \<le> clampIndex (length ?nh) i ?k" "clampIndex (length ?nh) i ?k < length ?nh"
    using i k by (auto simp: clampIndex_def)
  have up: "clampIndex (length ?nh) i (- ?k) \<le> i"
    using i k by (auto simp: clampIndex_def)
  let ?td = "clampIndex (length ?nh) i ?k" and ?tu = "clampIndex (length ?nh) i (- ?k)"
  from move_result [OF le, of ?k] obtain cs1
    where m1: "move ?cs ?k = Inr (cs1, Some (?nh ! ?td))"
      and p1: "selectedPositions cs1 = [?nh ! ?td]"
    by (auto simp: tgt wd)
  show "\<exists>cs' t. onEvent question height s (EventKey KeyPgDn)
             = Continue (s\<lparr>choices := cs', selectedChoice := Some (?nh ! t)\<rparr>)
           \<and> i \<le> t \<and> t < length ?nh \<and> selectedPositions cs' = [?nh ! t]"
    by (rule exI [of _ cs1], rule exI [of _ ?td])
      (use m1 p1 dn in \<open>simp add: assignMove_def moveDown_def\<close>)
  from move_result [OF le, of "- ?k"] obtain cs2
    where m2: "move ?cs (- ?k) = Inr (cs2, Some (?nh ! ?tu))"
      and p2: "selectedPositions cs2 = [?nh ! ?tu]"
    by (auto simp: tgt wu)
  show "\<exists>cs' t. onEvent question height s (EventKey KeyPgUp)
             = Continue (s\<lparr>choices := cs', selectedChoice := Some (?nh ! t)\<rparr>)
           \<and> t \<le> i \<and> selectedPositions cs' = [?nh ! t]"
    by (rule exI [of _ cs2], rule exI [of _ ?tu])
      (use m2 p2 up neg in \<open>simp add: assignMove_def moveUp_def\<close>)
qed

theorem page_size_witness:
  "int (length (splitLines [CHR ''a'', CHR 0x0A, CHR ''b''])) < 10
   \<and> computePageSize 10 [CHR ''a'', CHR 0x0A, CHR ''b''] = 7
   \<and> 1 \<le> int (length (splitLines [CHR ''a'', CHR 0x0A, CHR ''b'']))
   \<and> computePageSize 1 [CHR ''a'', CHR 0x0A, CHR ''b''] = 1
   \<and> int (length (choices sampleSession)) + 1 < 2 ^ 63
   \<and> visibleSelected (choices sampleSession) = [1]
   \<and> (\<exists>cs' t. onEvent [CHR ''a'', CHR 0x0A, CHR ''b''] 1 sampleSession (EventKey KeyPgDn)
             = Continue (sampleSession\<lparr>choices := cs',
                  selectedChoice := Some (notHidden (choices sampleSession) ! t)\<rparr>)
           \<and> 1 \<le> t \<and> t < length (notHidden (choices sampleSession))
           \<and> selectedPositions cs' = [notHidden (choices sampleSession) ! t])
   \<and> (\<exists>cs' t. onEvent [CHR ''a'', CHR 0x0A, CHR ''b''] 1 sampleSession (EventKey KeyPgUp)
             = Continue (sampleSession\<lparr>choices := cs',
                  selectedChoice := Some (notHidden (choices sampleSession) ! t)\<rparr>)
           \<and> t \<le> 1
           \<and> selectedPositions cs' = [notHidden (choices sampleSession) ! t])"
proof -
  have c: "choices sampleSession = sampleChoices" by (simp add: sampleSession_def)
  have vs: "visibleSelected (choices sampleSession) = [1]" unfolding c by code_simp
  have l2: "length (splitLines [CHR ''a'', CHR 0x0A, CHR ''b'']) = 2" by simp
  have len: "int (length (choices sampleSession)) + 1 < 2 ^ 63"
    by (simp add: c sampleChoices_def)
  note p1 = page_size [of "[CHR ''a'', CHR 0x0A, CHR ''b'']" 10 sampleSession 1]
  note p2 = page_size [of "[CHR ''a'', CHR 0x0A, CHR ''b'']" 1 sampleSession 1]
  from p1 [THEN conjunct1] l2
  have a: "computePageSize 10 [CHR ''a'', CHR 0x0A, CHR ''b''] = 7" by simp
  from p2 [THEN conjunct2, THEN conjunct1] l2
  have b: "computePageSize 1 [CHR ''a'', CHR 0x0A, CHR ''b''] = 1" by simp
  from p2 [THEN conjunct2, THEN conjunct2, THEN conjunct2, THEN conjunct2] vs len a b l2
  show ?thesis by (simp del: onEvent.simps)
qed

text \<open>
  C4, as the code has it. Let the ids be the positions, \<open>s\<close> the selected position, the
  capacity the height minus the number of prompt lines, and \<open>d\<close> be 1 when \<open>s\<close> exceeds the
  height and 0 otherwise. When the capacity is at least \<open>2 + d\<close>, \<open>render\<close> prints the
  prompt and then, on consecutive rows, the choices from position
  \<open>windowStart = max 0 (s + 2 + d - capacity)\<close> to the end of the list, and nothing of the
  choices before it. The selected choice is among them, on the row \<open>hl + s\<close> or
  \<open>height - 2 - d\<close>, whichever is smaller: the window starts at the first choice as long as
  \<open>s + 2 + d\<close> is at most the capacity, and afterwards the selected choice stays on the
  last row but one.
\<close>

theorem render_window:
  assumes "map Id_c options = map int [0..<length options]" and "s < length options"
    and "2 + (if int s > height then 1 else 0) \<le> height - int (length (splitLines question))"
  shows "render height question options (options ! s)
           = printLines 0 (splitLines question)
             @ map (\<lambda>j. printOption (int (length (splitLines question)) + int j)
                        (options ! (windowStart height (int (length (splitLines question))) s + j)))
                 [0..<length options - windowStart height (int (length (splitLines question))) s]
       \<and> windowStart height (int (length (splitLines question))) s \<le> s
       \<and> int (length (splitLines question))
           + int (s - windowStart height (int (length (splitLines question))) s)
         = min (int (length (splitLines question)) + int s)
             (height - 2 - (if int s > height then 1 else 0))
       \<and> (int s + 2 + (if int s > height then 1 else 0)
              \<le> height - int (length (splitLines question)) \<longrightarrow>
            windowStart height (int (length (splitLines question))) s = 0)"
  using render_window_eq [OF assms(1,2), of height question] assms(3)
  by (auto simp: windowStart_def)

theorem render_window_witness:
  "map Id_c sampleOptions = map int [0..<length sampleOptions] \<and> 3 < length sampleOptions
   \<and> render 5 ''Pick:'' sampleOptions (sampleOptions ! 3)
       = printLines 0 [''Pick:'']
         @ map (\<lambda>j. printOption (1 + int j) (sampleOptions ! (1 + j))) [0..<5]
   \<and> windowStart 5 1 3 \<le> 3 \<and> 1 + int (3 - windowStart 5 1 3) = 3"
proof -
  have ids: "map Id_c sampleOptions = map int [0..<length sampleOptions]"
    by (simp add: sampleOptions_def upt_rec)
  have s: "3 < length sampleOptions" by (simp add: sampleOptions_def)
  have l: "length (splitLines ''Pick:'') = 1" "splitLines ''Pick:'' = [''Pick:'']" by simp_all
  have w: "windowStart 5 1 3 = 1" by (simp add: windowStart_def)
  have n: "length sampleOptions = 6" by (simp add: sampleOptions_def)
  have c: "2 + (if int 3 > 5 then 1 else 0) \<le> 5 - int (length (splitLines ''Pick:''))"
    by simp
  from render_window [OF ids s c] ids s
  show ?thesis unfolding l by (simp add: w n)
qed

text \<open>
  C4 as stated fails. With five rows and a prompt of one line the capacity is four and
  the fourth choice fits, yet the window starts at the second choice, the selected choice
  is on row 3 and not on the last row 4, and the sixth choice is printed on row 5, beyond
  the screen. With two rows the capacity is one and the selected choice is not printed.
\<close>

theorem render_window_counterexample:
  "render 5 ''Pick:'' sampleOptions (sampleOptions ! 3)
     = [\<lparr>px = 1, py = 0, ptext = ''Pick:'', pfg = TextColor\<rparr>,
        \<lparr>px = 3, py = 1, ptext = ''b'', pfg = TextColor\<rparr>,
        \<lparr>px = 3, py = 2, ptext = ''c'', pfg = TextColor\<rparr>,
        \<lparr>px = 1, py = 3, ptext = ''> d'', pfg = SelectedTextColor\<rparr>,
        \<lparr>px = 3, py = 4, ptext = ''e'', pfg = TextColor\<rparr>,
        \<lparr>px = 3, py = 5, ptext = ''f'', pfg = TextColor\<rparr>]
   \<and> render 2 ''Pick:'' [\<lparr>Id_c = 0, Value = ''a'', Selected = True, hidden = False\<rparr>]
         \<lparr>Id_c = 0, Value = ''a'', Selected = True, hidden = False\<rparr>
     = [\<lparr>px = 1, py = 0, ptext = ''Pick:'', pfg = TextColor\<rparr>]"
  by code_simp

text \<open>
  C5. When the loop waits in a session \<open>s\<close> and Enter or Right arrives, \<open>pick\<close> returns
  what \<open>selectedChoice\<close> points to: the value and the id of a choice that is not hidden
  in \<open>s\<close> and is the only selected one, the id being its position in the input; when
  the pointer is \<open>nil\<close>, which is the case exactly when no choice is visible, it returns
  \<open>ErrNoChoiceSelected\<close>. The hidden flags are written by the modelled \<open>render\<close>.
\<close>

theorem confirm_returns_selected:
  assumes "choicesToPickFrom \<noteq> []"
    and "eventLoop question (newSession choicesToPickFrom) events = Continue s"
    and "k = KeyEnter \<or> k = KeyRight"
  shows "fst (pick question choicesToPickFrom (events @ (EventKey k, height) # rest))
           = Returns (returned s)
       \<and> (case selectedChoice s of
            None \<Rightarrow> returned s = Inl ErrNoChoiceSelected \<and> notHidden (choices s) = []
          | Some p \<Rightarrow> returned s = Inr (choicesToPickFrom ! p, int p)
              \<and> p < length choicesToPickFrom
              \<and> \<not> hidden (choices s ! p) \<and> selectedPositions (choices s) = [p])"
proof -
  have new: "sessionInv choicesToPickFrom (newSession choicesToPickFrom)"
    using assms(1) by (rule sessionInv_new)
  from sessionInv_eventLoop [OF new, of question events] assms(2)
  have inv: "sessionInv choicesToPickFrom s" by simp
  from assms(3) have "onEvent question height s (EventKey k) = Quit s" by auto
  with eventLoop_append [OF assms(2), of "EventKey k" height rest]
  have "eventLoop question (newSession choicesToPickFrom) (events @ (EventKey k, height) # rest)
          = Quit s" by simp
  with assms(1) have "fst (pick question choicesToPickFrom (events @ (EventKey k, height) # rest))
          = Returns (returned s)"
    by (simp add: pick_def)
  with sessionInv_returned [OF inv] show ?thesis by simp
qed

theorem confirm_returns_selected_witness:
  "sampleInput \<noteq> []
   \<and> eventLoop ''Pick:'' (newSession sampleInput) sampleEvents = Continue sampleFiltered
   \<and> fst (pick ''Pick:'' sampleInput (sampleEvents @ [(EventKey KeyEnter, 24)]))
       = Returns (Inr (''banana'', 1))
   \<and> \<not> hidden (choices sampleFiltered ! 1)"
proof -
  have ne: "sampleInput \<noteq> []" by (simp add: sampleInput_def)
  have sc: "selectedChoice sampleFiltered = Some 1" by (simp add: sampleFiltered_def)
  have v: "sampleInput ! 1 = ''banana''" by (simp add: sampleInput_def)
  from confirm_returns_selected [OF ne sample_run, of KeyEnter 24 "[]"] ne sample_run sc v
  show ?thesis by simp
qed

text \<open>
  C8, as the code has it. Escape, Ctrl-C and Left set \<open>selectedChoice\<close> to \<open>nil\<close> and end
  the loop, and \<open>pick\<close> returns \<open>ErrNoChoiceSelected\<close>, whichever choice was selected. A
  rune, \<open>q\<close> included, is appended to the search query and the loop goes on.
\<close>

theorem abort_keys:
  assumes "choicesToPickFrom \<noteq> []"
    and "eventLoop question (newSession choicesToPickFrom) events = Continue s"
  shows "(k = KeyEscape \<or> k = KeyCtrlC \<or> k = KeyLeft \<longrightarrow>
            eventLoop question (newSession choicesToPickFrom) (events @ (EventKey k, height) # rest)
              = Quit (s\<lparr>selectedChoice := None\<rparr>)
          \<and> fst (pick question choicesToPickFrom (events @ (EventKey k, height) # rest))
              = Returns (Inl ErrNoChoiceSelected))
       \<and> (\<exists>s'. onEvent question height s (EventKey (KeyRune r)) = Continue s'
              \<and> searchQuery s' = searchQuery s @ r)"
proof -
  have new: "sessionInv choicesToPickFrom (newSession choicesToPickFrom)"
    using assms(1) by (rule sessionInv_new)
  from sessionInv_eventLoop [OF new, of question events] assms(2)
  have inv: "sessionInv choicesToPickFrom s" by simp
  have "eventLoop question (newSession choicesToPickFrom) (events @ (EventKey k, height) # rest)
              = Quit (s\<lparr>selectedChoice := None\<rparr>)
          \<and> fst (pick question choicesToPickFrom (events @ (EventKey k, height) # rest))
              = Returns (Inl ErrNoChoiceSelected)"
    if "k = KeyEscape \<or> k = KeyCtrlC \<or> k = KeyLeft"
  proof -
    from that have "onEvent question height s (EventKey k) = Quit (s\<lparr>selectedChoice := None\<rparr>)"
      by auto
    with eventLoop_append [OF assms(2), of "EventKey k" height rest]
    have "eventLoop question (newSession choicesToPickFrom)
            (events @ (EventKey k, height) # rest) = Quit (s\<lparr>selectedChoice := None\<rparr>)"
      by simp
    with assms(1) show ?thesis by (simp add: pick_def returned_def)
  qed
  moreover from sessionInv_editQuery [OF inv, of "searchQuery s @ r"]
  have "\<exists>s'. onEvent question height s (EventKey (KeyRune r)) = Continue s'
              \<and> searchQuery s' = searchQuery s @ r"
    by auto
  ultimately show ?thesis by blast
qed

theorem abort_keys_witness:
  "sampleInput \<noteq> []
   \<and> eventLoop ''Pick:'' (newSession sampleInput) sampleEvents = Continue sampleFiltered
   \<and> fst (pick ''Pick:'' sampleInput (sampleEvents @ [(EventKey KeyEscape, 24)]))
       = Returns (Inl ErrNoChoiceSelected)
   \<and> (\<exists>s'. onEvent ''Pick:'' 24 sampleFiltered (EventKey (KeyRune ''q'')) = Continue s'
          \<and> searchQuery s' = searchQuery sampleFiltered @ ''q'')"
proof -
  have ne: "sampleInput \<noteq> []" by (simp add: sampleInput_def)
  from abort_keys [OF ne sample_run, of KeyEscape 24 "[]" "''q''"] ne sample_run
  show ?thesis by (simp del: onEvent.simps)
qed

text \<open>
  C8 as stated fails for the key \<open>q\<close>: after \<open>q\<close> alone \<open>pick\<close> has not returned, and
  after \<open>q\<close> and Enter it returns the choice that contains a \<open>q\<close>.
\<close>

theorem rune_q_does_not_abort:
  "fst (pick ''Pick:'' [''x'', ''y''] [(EventKey (KeyRune ''q''), 24)]) = Blocks
   \<and> fst (pick ''Pick:'' [''quit'', ''stay''] [(EventKey (KeyRune ''q''), 24), (EventKey KeyEnter, 24)])
       = Returns (Inr (''quit'', 0))"
  by code_simp

text \<open>
  C9. With an empty list of choices \<open>pick\<close> returns \<open>ErrNoChoice\<close> at once, whatever the
  events: no session is built, the loop does not run and \<open>render\<close> is not called.
\<close>

theorem pick_empty: "pick question [] events = (Returns (Inl ErrNoChoice), 0)"
  by (simp add: pick_def)


end
